theory Spec2Isabelle
  imports Main "HOL-Library.Product_Lexorder" "HOL-Library.List_Lexorder" "HOL-Library.Char_ord"
begin

section \<open>Data model\<close>

text \<open>
  Go's \<open>time.Time\<close> is modelled as an integer instant; only equality and order of
  instants are used. Identities and offsets are Go \<open>int64\<close> and \<open>int\<close>; they
  are modelled as unbounded integers (no claim depends on wrap-around).
\<close>

type_synonym time = int

record RawEvent =
  Raw :: string
  Source :: string
  Offset :: int

record Event = RawEvent +
  Host :: string
  Timestamp :: time

record EventWithId = Event +
  Id' :: int

record EventWithExtractedFields =
  xId :: int
  xRaw :: string
  xTimestamp :: time
  xSource :: string
  Fields :: "string \<rightharpoonup> string"

text \<open>
  An error value of Go: \<open>Error msg\<close> is a non-nil \<open>error\<close> with that message,
  \<open>IndexOutOfRange\<close> is the run-time panic of a slice index out of range.
\<close>

datatype error = Error string | IndexOutOfRange

text \<open>The lines of the log that the claims speak of. The line \<open>added numEvents=...\<close>
  is kept without its elapsed time.\<close>

datatype log_entry =
    LogSkipped int string
  | LogAdded nat
  | LogStmt string
  | LogError string

section \<open>The SQLite store\<close>

text \<open>
  The two tables of \<open>SqliteRepository\<close>: \<open>Events(id, source, timestamp, offset)\<close>
  with \<open>id INTEGER PRIMARY KEY\<close> and \<open>UNIQUE(source, timestamp, offset)\<close>, and the
  full-text table \<open>EventRaws(rowid, raw, source)\<close>. A table is the list of its rows in
  insertion order.
\<close>

record EventsRow =
  e_id :: int
  e_source :: string
  e_timestamp :: time
  e_offset :: int

record EventRawsRow =
  r_rowid :: int
  r_raw :: string
  r_source :: string

record Db =
  Events :: "EventsRow list"
  EventRaws :: "EventRawsRow list"

definition expectedConstraintViolationForDuplicates :: string where
  "expectedConstraintViolationForDuplicates =
     ''UNIQUE constraint failed: Events.source, Events.timestamp, Events.offset''"

definition filterStreamPageSize :: nat where
  "filterStreamPageSize = 1000"

text \<open>
  The database calls of \<open>AddBatch\<close> can fail for reasons the tables do not determine
  (I/O, a closed connection). \<open>TxFaults\<close> lists, per call, the message of such a
  failure: \<open>insert_err i\<close>, \<open>lastid_err i\<close> and \<open>raw_err i\<close> are for the calls of
  loop iteration \<open>i\<close>.
\<close>

record TxFaults =
  begin_err :: "string option"
  insert_err :: "nat \<Rightarrow> string option"
  lastid_err :: "nat \<Rightarrow> string option"
  raw_err :: "nat \<Rightarrow> string option"
  commit_err :: "string option"

definition no_faults :: TxFaults where
  "no_faults = \<lparr>begin_err = None, insert_err = (\<lambda>_. None), lastid_err = (\<lambda>_. None),
     raw_err = (\<lambda>_. None), commit_err = None\<rparr>"

definition same_triple :: "Event \<Rightarrow> EventsRow \<Rightarrow> bool" where
  "same_triple evt row \<longleftrightarrow>
     e_source row = Source evt \<and> e_timestamp row = Timestamp evt \<and> e_offset row = Offset evt"

text \<open>The rowid SQLite gives a row inserted without one: one more than the largest.\<close>

definition next_rowid :: "Db \<Rightarrow> int" where
  "next_rowid db = (if Events db = [] then 1 else Max (set (map e_id (Events db))) + 1)"

text \<open>\<open>INSERT INTO Events(source, timestamp, offset) VALUES(?, ?, ?)\<close> inside the
  transaction: an injected failure, the uniqueness violation, or the new table and the
  identity of the new row.\<close>

definition exec_insert_event :: "TxFaults \<Rightarrow> nat \<Rightarrow> Db \<Rightarrow> Event \<Rightarrow> string + (Db \<times> int)" where
  "exec_insert_event f i db evt =
     (case insert_err f i of
        Some msg \<Rightarrow> Inl msg
      | None \<Rightarrow>
          if list_ex (same_triple evt) (Events db)
          then Inl expectedConstraintViolationForDuplicates
          else Inr (db\<lparr>Events := Events db @
                        [\<lparr>e_id = next_rowid db, e_source = Source evt,
                          e_timestamp = Timestamp evt, e_offset = Offset evt\<rparr>]\<rparr>,
                    next_rowid db))"

text \<open>\<open>INSERT INTO EventRaws (rowid, raw, source) SELECT LAST_INSERT_ROWID(), ?, ?\<close>.\<close>

definition exec_insert_raw :: "TxFaults \<Rightarrow> nat \<Rightarrow> Db \<Rightarrow> int \<Rightarrow> Event \<Rightarrow> string + Db" where
  "exec_insert_raw f i db last_id evt =
     (case raw_err f i of
        Some msg \<Rightarrow> Inl msg
      | None \<Rightarrow> Inr (db\<lparr>EventRaws := EventRaws db @
                        [\<lparr>r_rowid = last_id, r_raw = Raw evt, r_source = Source evt\<rparr>]\<rparr>))"

section \<open>AddBatch\<close>

text \<open>\<open>numberOfDuplicates[evt.Source]++\<close> on a Go map, kept as an association list
  with one entry per key.\<close>

fun incr :: "(string \<times> int) list \<Rightarrow> string \<Rightarrow> (string \<times> int) list" where
  "incr [] k = [(k, 1)]"
| "incr ((k', v) # m) k = (if k' = k then (k', v + 1) # m else (k', v) # incr m k)"

record TxState =
  tx_db :: Db
  tx_ret :: "int list"
  tx_numberOfDuplicates :: "(string \<times> int) list"

text \<open>The \<open>for i, evt := range events\<close> loop of \<open>AddBatch\<close>; \<open>Inl\<close> is an exit
  through \<open>tx.Rollback()\<close> with the error returned.\<close>

fun AddBatch_loop :: "TxFaults \<Rightarrow> nat \<Rightarrow> Event list \<Rightarrow> TxState \<Rightarrow> error + TxState" where
  "AddBatch_loop f i [] st = Inr st"
| "AddBatch_loop f i (evt # rest) st =
     (case exec_insert_event f i (tx_db st) evt of
        Inl err \<Rightarrow>
          if err = expectedConstraintViolationForDuplicates
          then AddBatch_loop f (Suc i) rest
                 (st\<lparr>tx_numberOfDuplicates := incr (tx_numberOfDuplicates st) (Source evt)\<rparr>)
          else Inl (Error (''error executing add statement: '' @ err))
      | Inr (db1, new_id) \<Rightarrow>
          (case lastid_err f i of
             Some err \<Rightarrow> Inl (Error (''error getting event id after insert: '' @ err))
           | None \<Rightarrow>
               (case exec_insert_raw f i db1 new_id evt of
                  Inl err \<Rightarrow> Inl (Error (''error executing add raw statement: '' @ err))
                | Inr db2 \<Rightarrow>
                    AddBatch_loop f (Suc i) rest (st\<lparr>tx_db := db2, tx_ret := (tx_ret st)[i := new_id]\<rparr>))))"

datatype tx_outcome = NotStarted | Committed | RolledBack | CommitFailed string

record AddResult =
  result :: "error + int list"
  store :: Db
  logs :: "log_entry list"
  tx :: tx_outcome

definition init_state :: "Db \<Rightarrow> Event list \<Rightarrow> TxState" where
  "init_state db events =
     \<lparr>tx_db = db, tx_ret = replicate (length events) 0, tx_numberOfDuplicates = []\<rparr>"

text \<open>
  \<open>AddBatch\<close>: the value returned, the store afterwards, the lines logged and how the
  transaction ended. After a failed \<open>tx.Commit()\<close> the store is the one before the
  transaction; the function still logs and returns \<open>ret, nil\<close>.
\<close>

definition AddBatch :: "TxFaults \<Rightarrow> Db \<Rightarrow> Event list \<Rightarrow> AddResult" where
  "AddBatch f db events =
     (case begin_err f of
        Some err \<Rightarrow>
          \<lparr>result = Inl (Error (''error starting transaction for adding event: '' @ err)),
           store = db, logs = [], tx = NotStarted\<rparr>
      | None \<Rightarrow>
          (case AddBatch_loop f 0 events (init_state db events) of
             Inl e \<Rightarrow> \<lparr>result = Inl e, store = db, logs = [], tx = RolledBack\<rparr>
           | Inr st \<Rightarrow>
               \<lparr>result = Inr (tx_ret st),
                store = (case commit_err f of None \<Rightarrow> tx_db st | Some _ \<Rightarrow> db),
                logs = map (\<lambda>(k, v). LogSkipped v k) (tx_numberOfDuplicates st)
                         @ [LogAdded (length events)],
                tx = (case commit_err f of None \<Rightarrow> Committed | Some err \<Rightarrow> CommitFailed err)\<rparr>))"

section \<open>FilterStream\<close>

text \<open>\<open>strconv.Itoa\<close> and \<open>strconv.FormatInt(id, 10)\<close>: decimal digits.\<close>

fun nat_digits :: "nat \<Rightarrow> string" where
  "nat_digits n =
     (if n < 10 then [''0123456789'' ! n]
      else nat_digits (n div 10) @ [''0123456789'' ! (n mod 10)])"

declare nat_digits.simps [simp del]

definition Itoa :: "int \<Rightarrow> string" where
  "Itoa i = (if i < 0 then CHR ''-'' # nat_digits (nat (- i)) else nat_digits (nat i))"

text \<open>
  The full-text query string of \<open>FilterStream\<close>. A Go set (\<open>map[string]struct{}\<close>)
  is given as the list of its keys in the order \<open>range\<close> visits them.
\<close>

definition match_string :: "string list \<Rightarrow> string list \<Rightarrow> string list \<Rightarrow> string" where
  "match_string sources notSources fragments =
     (if length sources > 0 then ''('' else [])
     @ concat (map (\<lambda>s. ''source:'' @ s @ '' '') sources)
     @ (if length sources > 0 \<and> length notSources = 0 then '')'' else [])
     @ concat (map (\<lambda>s. ''NOT source:'' @ s @ '' '') notSources)
     @ (if length notSources > 0 then '')'' else [])
     @ (if length sources > 0 \<or> length notSources > 0 then '' AND '' else [])
     @ (if length fragments > 0 then ''('' else [])
     @ concat (map (\<lambda>frag. ''raw:'' @ frag @ '' '') fragments)
     @ (if length fragments > 0 then '')'' else [])"

text \<open>The statement sent for one page; \<open>tS\<close> is \<open>time.Time.String\<close>.\<close>

definition filter_stmt ::
  "(time \<Rightarrow> string) \<Rightarrow> int \<Rightarrow> time option \<Rightarrow> time option \<Rightarrow> string \<Rightarrow> nat \<Rightarrow> string" where
  "filter_stmt tS maxID startTime endTime matchString offset =
     ''SELECT e.id, e.source, e.timestamp, r.raw FROM Events e INNER JOIN EventRaws r ON r.rowid = e.id WHERE e.id < ''
     @ Itoa maxID
     @ (case startTime of None \<Rightarrow> []
        | Some t \<Rightarrow> '' AND e.timestamp >= '' @ [CHR 0x27] @ tS t @ [CHR 0x27])
     @ (case endTime of None \<Rightarrow> []
        | Some t \<Rightarrow> '' AND e.timestamp <= '' @ [CHR 0x27] @ tS t @ [CHR 0x27])
     @ '' AND EventRaws MATCH '' @ [CHR 0x27] @ matchString @ [CHR 0x27]
     @ '' ORDER BY e.timestamp DESC, e.id DESC LIMIT '' @ Itoa (int filterStreamPageSize)
     @ '' OFFSET '' @ Itoa (int offset) @ '';''"

text \<open>
  What the reads depend on besides the tables: \<open>fts_match s r\<close> says whether row \<open>r\<close>
  of \<open>EventRaws\<close> satisfies \<open>EventRaws MATCH 's'\<close> (the FTS4 engine is not part of the
  repository); the \<open>_err\<close> fields give the message of a failing call, \<open>page_query_err\<close>
  by the \<open>OFFSET\<close> of the page and \<open>scan_err\<close> by the identity of the row scanned;
  \<open>maxid_no_row\<close> says that \<open>res.Next()\<close> finds no row after the query for the
  largest identity. \<open>timestamp_text t\<close> is the text the driver stores in the column
  \<open>timestamp\<close> for the instant \<open>t\<close>, \<open>time_String\<close> is \<open>time.Time.String\<close>.
  \<open>next_fail\<close> gives, by the \<open>OFFSET\<close> of the page, the number of rows after which
  \<open>res.Next()\<close> returns false because stepping the statement failed (\<open>None\<close>: it
  does not fail); the code never reads \<open>rows.Err()\<close>.
\<close>

record ReadEnv =
  fts_match :: "string \<Rightarrow> EventRawsRow \<Rightarrow> bool"
  time_String :: "time \<Rightarrow> string"
  timestamp_text :: "time \<Rightarrow> string"
  maxid_query_err :: "string option"
  maxid_no_row :: bool
  page_query_err :: "nat \<Rightarrow> string option"
  next_fail :: "nat \<Rightarrow> nat option"
  scan_err :: "int \<Rightarrow> string option"
  ids_query_err :: "string option"

text \<open>\<open>Events e INNER JOIN EventRaws r ON r.rowid = e.id\<close>.\<close>

definition joined :: "Db \<Rightarrow> (EventsRow \<times> EventRawsRow) list" where
  "joined db =
     concat (map (\<lambda>e. map (Pair e) (filter (\<lambda>r. r_rowid r = e_id e) (EventRaws db))) (Events db))"

text \<open>
  \<open>e.timestamp >= '...'\<close> and \<open>e.timestamp <= '...'\<close>: the stored text of the
  timestamp is compared with the text of \<open>time.Time.String\<close>, byte by byte (the
  order of strings is the lexicographic one over the codes of the characters).
\<close>

definition in_bounds :: "ReadEnv \<Rightarrow> time option \<Rightarrow> time option \<Rightarrow> time \<Rightarrow> bool" where
  "in_bounds env startTime endTime t \<longleftrightarrow>
     (case startTime of None \<Rightarrow> True | Some s \<Rightarrow> time_String env s \<le> timestamp_text env t) \<and>
     (case endTime of None \<Rightarrow> True | Some e \<Rightarrow> timestamp_text env t \<le> time_String env e)"

text \<open>The key of \<open>ORDER BY e.timestamp, e.id\<close>: the stored text, then the identity.\<close>

definition order_key :: "ReadEnv \<Rightarrow> EventsRow \<times> EventRawsRow \<Rightarrow> string \<times> int" where
  "order_key env row = (timestamp_text env (e_timestamp (fst row)), e_id (fst row))"

text \<open>The rows of the statement before \<open>LIMIT\<close> and \<open>OFFSET\<close>: the \<open>WHERE\<close>
  clause, then \<open>ORDER BY e.timestamp DESC, e.id DESC\<close>.\<close>

definition selected ::
  "ReadEnv \<Rightarrow> Db \<Rightarrow> int \<Rightarrow> time option \<Rightarrow> time option \<Rightarrow> string \<Rightarrow> (EventsRow \<times> EventRawsRow) list" where
  "selected env db maxID startTime endTime matchString =
     rev (sort_key (order_key env)
       (filter (\<lambda>row. e_id (fst row) < maxID
                  \<and> in_bounds env startTime endTime (e_timestamp (fst row))
                  \<and> fts_match env matchString (snd row))
          (joined db)))"

definition result_rows ::
  "ReadEnv \<Rightarrow> Db \<Rightarrow> int \<Rightarrow> time option \<Rightarrow> time option \<Rightarrow> string \<Rightarrow> nat \<Rightarrow> (EventsRow \<times> EventRawsRow) list" where
  "result_rows env db maxID startTime endTime matchString offset =
     take filterStreamPageSize (drop offset (selected env db maxID startTime endTime matchString))"

text \<open>The rows that \<open>for res.Next()\<close> goes through: all rows of the statement, or the
  first ones when stepping the statement fails.\<close>

definition fetch_page ::
  "ReadEnv \<Rightarrow> Db \<Rightarrow> int \<Rightarrow> time option \<Rightarrow> time option \<Rightarrow> string \<Rightarrow> nat \<Rightarrow> (EventsRow \<times> EventRawsRow) list" where
  "fetch_page env db maxID startTime endTime matchString offset =
     (case next_fail env offset of
        None \<Rightarrow> result_rows env db maxID startTime endTime matchString offset
      | Some m \<Rightarrow> take m (result_rows env db maxID startTime endTime matchString offset))"

text \<open>\<open>res.Scan(&evt.Id, &evt.Source, &evt.Timestamp, &evt.Raw)\<close> into a zero
  \<open>EventWithId\<close>.\<close>

definition row_event :: "EventsRow \<times> EventRawsRow \<Rightarrow> EventWithId" where
  "row_event row =
     \<lparr>Raw = r_raw (snd row), Source = e_source (fst row), Offset = 0, Host = [],
      Timestamp = e_timestamp (fst row), Id' = e_id (fst row)\<rparr>"

text \<open>The \<open>for res.Next()\<close> loop over the rows read: a row whose scan fails is logged
  and left out of \<open>evts\<close>, and still counted in \<open>eventsInPage\<close>.\<close>

fun scan_page ::
  "ReadEnv \<Rightarrow> (EventsRow \<times> EventRawsRow) list \<Rightarrow> EventWithId list \<times> log_entry list \<times> nat" where
  "scan_page env [] = ([], [], 0)"
| "scan_page env (row # rows) =
     (case scan_page env rows of
        (evts, lg, eventsInPage) \<Rightarrow>
          (case scan_err env (e_id (fst row)) of
             Some err \<Rightarrow>
               (evts, LogError (''error when scanning result in FilterStream: '' @ err) # lg,
                Suc eventsInPage)
           | None \<Rightarrow> (row_event row # evts, lg, Suc eventsInPage)))"

text \<open>The stream: the pages sent on the channel before it is closed, and the log.\<close>

record StreamResult =
  pages :: "EventWithId list list"
  slogs :: "log_entry list"

text \<open>The paging loop \<open>for { ... }\<close>. The store does not change while a stream runs.\<close>

function FilterStream_loop ::
  "ReadEnv \<Rightarrow> Db \<Rightarrow> string list \<Rightarrow> string list \<Rightarrow> string list \<Rightarrow> time option \<Rightarrow> time option
     \<Rightarrow> int \<Rightarrow> nat \<Rightarrow> StreamResult" where
  "FilterStream_loop env db sources notSources fragments startTime endTime maxID offset =
     (let matchString = match_string sources notSources fragments;
          stmt = filter_stmt (time_String env) maxID startTime endTime matchString offset
      in case page_query_err env offset of
           Some err \<Rightarrow>
             \<lparr>pages = [],
              slogs = [LogStmt stmt,
                       LogError (''error when getting filtered events in FilterStream: '' @ err)]\<rparr>
         | None \<Rightarrow>
             (case scan_page env (fetch_page env db maxID startTime endTime matchString offset) of
                (evts, lg, eventsInPage) \<Rightarrow>
                  if eventsInPage < filterStreamPageSize
                  then \<lparr>pages = [evts], slogs = LogStmt stmt # lg\<rparr>
                  else (let r = FilterStream_loop env db sources notSources fragments
                                  startTime endTime maxID (offset + filterStreamPageSize)
                        in \<lparr>pages = evts # pages r, slogs = LogStmt stmt # lg @ slogs r\<rparr>)))"
  by pat_completeness auto

lemma scan_page_count: "scan_page env rows = (evts, lg, n) \<Longrightarrow> n = length rows"
  by (induction rows arbitrary: evts lg n) (auto split: prod.splits option.splits)

termination FilterStream_loop
  apply (relation "measure (\<lambda>(env, db, so, ns, fr, st, en, maxID, offset).
          length (selected env db maxID st en (match_string so ns fr)) - offset)")
   apply simp
  apply (auto dest!: scan_page_count [OF sym]
           simp: fetch_page_def result_rows_def filterStreamPageSize_def split: option.splits)
  done

declare FilterStream_loop.simps [simp del]

text \<open>\<open>SELECT MAX(id) FROM Events\<close>: \<open>NULL\<close> on an empty table, which
  \<open>res.Scan(&maxID)\<close> refuses.\<close>

definition max_id :: "Db \<Rightarrow> int option" where
  "max_id db = (if Events db = [] then None else Some (Max (set (map e_id (Events db)))))"

definition FilterStream ::
  "ReadEnv \<Rightarrow> Db \<Rightarrow> string list \<Rightarrow> string list \<Rightarrow> string list \<Rightarrow> time option \<Rightarrow> time option
     \<Rightarrow> StreamResult" where
  "FilterStream env db sources notSources fragments startTime endTime =
     (case maxid_query_err env of
        Some err \<Rightarrow>
          \<lparr>pages = [],
           slogs = [LogError (''error when getting max(id) from Events table in FilterStream: '' @ err)]\<rparr>
      | None \<Rightarrow>
          if maxid_no_row env
          then \<lparr>pages = [],
                slogs = [LogError ''weird state in FilterStream, expected one result when getting max(id) from Events but got 0'']\<rparr>
          else
            (case max_id db of
               None \<Rightarrow>
                 \<lparr>pages = [],
                  slogs = [LogError ''error when scanning max(id) in FilterStream: converting NULL to int is unsupported'']\<rparr>
             | Some maxID \<Rightarrow>
                 FilterStream_loop env db sources notSources fragments startTime endTime maxID 0))"

section \<open>GetByIds\<close>

fun ids_csv :: "int list \<Rightarrow> string" where
  "ids_csv [] = []"
| "ids_csv [x] = Itoa x"
| "ids_csv (x # y # ys) = Itoa x @ '','' @ ids_csv (y # ys)"

definition GetByIds_stmt :: "int list \<Rightarrow> string" where
  "GetByIds_stmt ids =
     ''SELECT e.id, e.source, e.timestamp, r.raw FROM Events e INNER JOIN EventRaws r ON r.rowid = e.id WHERE e.id IN (''
     @ ids_csv ids @ '');''"

definition zero_event :: EventWithId where
  "zero_event = \<lparr>Raw = [], Source = [], Offset = 0, Host = [], Timestamp = 0, Id' = 0\<rparr>"

text \<open>The rows of \<open>WHERE e.id IN (...)\<close>, in the order of the table; SQLite takes an
  empty list after \<open>IN\<close> and finds no row.\<close>

definition rows_by_ids :: "Db \<Rightarrow> int list \<Rightarrow> (EventsRow \<times> EventRawsRow) list" where
  "rows_by_ids db ids = filter (\<lambda>row. e_id (fst row) \<in> set ids) (joined db)"

text \<open>The \<open>for res.Next()\<close> loop of \<open>GetByIds\<close>: \<open>&ret[idx]\<close> panics when \<open>idx\<close>
  is outside the slice, a failed scan returns the error.\<close>

fun GetByIds_loop ::
  "ReadEnv \<Rightarrow> (EventsRow \<times> EventRawsRow) list \<Rightarrow> nat \<Rightarrow> EventWithId list \<Rightarrow> error + EventWithId list" where
  "GetByIds_loop env [] idx rets = Inr rets"
| "GetByIds_loop env (row # rows) idx rets =
     (if length rets \<le> idx then Inl IndexOutOfRange
      else case scan_err env (e_id (fst row)) of
             Some err \<Rightarrow> Inl (Error (''error when scanning row in GetByIds: '' @ err))
           | None \<Rightarrow> GetByIds_loop env rows (Suc idx) (rets[idx := row_event row]))"

definition GetByIds :: "ReadEnv \<Rightarrow> Db \<Rightarrow> int list \<Rightarrow> error + EventWithId list" where
  "GetByIds env db ids =
     (case ids_query_err env of
        Some err \<Rightarrow> Inl (Error (''error executing GetByIds query: '' @ err))
      | None \<Rightarrow> GetByIds_loop env (rows_by_ids db ids) 0 (replicate (length ids) zero_event))"

section \<open>Search: the refinement of the query layer\<close>

text \<open>
  What the search and the publisher call outside the repository's files given here:
  \<open>regexp.MatchString\<close>, \<open>strings.ToLower\<close>, \<open>parser.ExtractFields\<close>, the
  compilation of one pattern and \<open>time.Parse\<close>. They are parameters of the model;
  \<open>'re\<close> is the type of a compiled pattern, \<open>'fx\<close> the type of the configured
  extractors.
\<close>

record ('re, 'fx) Externals =
  MatchString :: "'re \<Rightarrow> string \<Rightarrow> bool"
  ToLower :: "string \<Rightarrow> string"
  ExtractFields :: "string \<Rightarrow> 'fx \<Rightarrow> (string \<rightharpoonup> string)"
  Compile :: "string \<Rightarrow> 're"
  time_Parse :: "string \<Rightarrow> string \<Rightarrow> string + time"

record 'fx Config =
  HostName :: string
  FieldExtractors :: "'fx"

text \<open>A Go map with list values (\<open>map[string][]string\<close>) is the list of its entries
  in the order \<open>range\<close> visits them, each key once.\<close>

record Search =
  StartTime :: "time option"
  EndTime :: "time option"
  Fragments :: "string list"
  NotFragments :: "string list"
  SFields :: "(string \<times> string list) list"
  NotFields :: "(string \<times> string list) list"
  Sources :: "string list"
  NotSources :: "string list"

text \<open>Modelled from the spec: \<open>filtering.CompileKeys\<close> and \<open>filtering.CompileMap\<close>
  are not among the files; each input string is compiled into one pattern, a set to the
  list of its patterns and a map to the map of the lists of patterns.\<close>

definition CompileKeys :: "('re, 'fx) Externals \<Rightarrow> string list \<Rightarrow> 're list" where
  "CompileKeys x keys = map (Compile x) keys"

definition CompileMap ::
  "('re, 'fx) Externals \<Rightarrow> (string \<times> string list) list \<Rightarrow> (string \<times> 're list) list" where
  "CompileMap x m = map (\<lambda>(k, vs). (k, map (Compile x) vs)) m"

text \<open>The four loops of \<open>shouldIncludeEvent\<close>, each threading \<open>include\<close>; a
  \<open>break\<close> leaves the loop with the value \<open>include\<close> has then.\<close>

fun frags_loop :: "('re \<Rightarrow> string \<Rightarrow> bool) \<Rightarrow> string \<Rightarrow> 're list \<Rightarrow> bool \<Rightarrow> bool" where
  "frags_loop M rawLowered [] include = include"
| "frags_loop M rawLowered (frag # rest) include =
     (if \<not> M frag rawLowered then False else frags_loop M rawLowered rest include)"

fun notFrags_loop :: "('re \<Rightarrow> string \<Rightarrow> bool) \<Rightarrow> string \<Rightarrow> 're list \<Rightarrow> bool \<Rightarrow> bool" where
  "notFrags_loop M rawLowered [] include = include"
| "notFrags_loop M rawLowered (frag # rest) include =
     (if M frag rawLowered then False else notFrags_loop M rawLowered rest include)"

fun anyMatch_loop :: "('re \<Rightarrow> string \<Rightarrow> bool) \<Rightarrow> string \<Rightarrow> 're list \<Rightarrow> bool \<Rightarrow> bool" where
  "anyMatch_loop M evtValue [] anyMatch = anyMatch"
| "anyMatch_loop M evtValue (v # values) anyMatch =
     anyMatch_loop M evtValue values (if M v evtValue then True else anyMatch)"

fun fields_loop ::
  "('re \<Rightarrow> string \<Rightarrow> bool) \<Rightarrow> (string \<rightharpoonup> string) \<Rightarrow> (string \<times> 're list) list \<Rightarrow> bool \<Rightarrow> bool" where
  "fields_loop M evtFields [] include = include"
| "fields_loop M evtFields ((key, values) # rest) include =
     (case evtFields key of
        None \<Rightarrow> False
      | Some evtValue \<Rightarrow>
          if \<not> anyMatch_loop M evtValue values False then False
          else fields_loop M evtFields rest include)"

fun notFields_loop ::
  "('re \<Rightarrow> string \<Rightarrow> bool) \<Rightarrow> (string \<rightharpoonup> string) \<Rightarrow> (string \<times> 're list) list \<Rightarrow> bool \<Rightarrow> bool" where
  "notFields_loop M evtFields [] include = include"
| "notFields_loop M evtFields ((key, values) # rest) include =
     (case evtFields key of
        None \<Rightarrow> include
      | Some evtValue \<Rightarrow>
          if anyMatch_loop M evtValue values False then False
          else notFields_loop M evtFields rest include)"

definition shouldIncludeEvent ::
  "('re, 'fx) Externals \<Rightarrow> EventWithId \<Rightarrow> 'fx Config \<Rightarrow> 're list \<Rightarrow> 're list
     \<Rightarrow> (string \<times> 're list) list \<Rightarrow> (string \<times> 're list) list \<Rightarrow> (string \<rightharpoonup> string) \<times> bool" where
  "shouldIncludeEvent x evt cfg compiledFrags compiledNotFrags compiledFields compiledNotFields =
     (let rawLowered = ToLower x (Raw evt);
          evtFields = (ExtractFields x (ToLower x (Raw evt)) (FieldExtractors cfg))
                        (''source'' \<mapsto> Source evt);
          include = True;
          include = frags_loop (MatchString x) rawLowered compiledFrags include;
          include = notFrags_loop (MatchString x) rawLowered compiledNotFrags include;
          include = fields_loop (MatchString x) evtFields compiledFields include;
          include = notFields_loop (MatchString x) evtFields compiledNotFields include
      in (evtFields, include))"

fun refine_page ::
  "('re, 'fx) Externals \<Rightarrow> 'fx Config \<Rightarrow> 're list \<Rightarrow> 're list
     \<Rightarrow> (string \<times> 're list) list \<Rightarrow> (string \<times> 're list) list
     \<Rightarrow> EventWithId list \<Rightarrow> EventWithExtractedFields list" where
  "refine_page x cfg cF cNF cFi cNFi [] = []"
| "refine_page x cfg cF cNF cFi cNFi (evt # evts) =
     (case shouldIncludeEvent x evt cfg cF cNF cFi cNFi of
        (evtFields, include) \<Rightarrow>
          if include
          then \<lparr>xId = Id' evt, xRaw = Raw evt, xTimestamp = Timestamp evt, xSource = Source evt,
                Fields = evtFields\<rparr> # refine_page x cfg cF cNF cFi cNFi evts
          else refine_page x cfg cF cNF cFi cNFi evts)"

definition FilterEventsStream ::
  "('re, 'fx) Externals \<Rightarrow> ReadEnv \<Rightarrow> Db \<Rightarrow> Search \<Rightarrow> 'fx Config
     \<Rightarrow> EventWithExtractedFields list list" where
  "FilterEventsStream x env db srch cfg =
     (let inputEvents = pages (FilterStream env db (Sources srch) (NotSources srch)
                                 (Fragments srch) (StartTime srch) (EndTime srch));
          compiledFrags = CompileKeys x (Fragments srch);
          compiledNotFrags = CompileKeys x (NotFragments srch);
          compiledFields = CompileMap x (SFields srch);
          compiledNotFields = CompileMap x (NotFields srch)
      in map (refine_page x cfg compiledFrags compiledNotFrags compiledFields compiledNotFields)
           inputEvents)"

section \<open>The batched publisher\<close>

text \<open>\<open>time.Second\<close>, a duration in nanoseconds; instants are counted in the same unit.\<close>

definition Second :: int where
  "Second = 1000000000"

definition error_message :: "error \<Rightarrow> string" where
  "error_message e = (case e of Error msg \<Rightarrow> msg | IndexOutOfRange \<Rightarrow> ''index out of range'')"

text \<open>
  \<open>PublishEvent\<close>: \<open>now\<close> is what \<open>time.Now()\<close> returns during the call. The
  result is the \<open>Event\<close> sent on the \<open>adder\<close> channel and the lines logged; the Go
  function has no return value.
\<close>

definition PublishEvent ::
  "('re, 'fx) Externals \<Rightarrow> 'fx Config \<Rightarrow> time \<Rightarrow> RawEvent \<Rightarrow> string \<Rightarrow> Event \<times> log_entry list" where
  "PublishEvent x cfg now evt timeLayout =
     (let processed = \<lparr>Raw = Raw evt, Source = Source evt, Offset = Offset evt,
                       Host = HostName cfg, Timestamp = 0\<rparr>;
          fields = ExtractFields x (ToLower x (Raw evt)) (FieldExtractors cfg)
      in case fields ''_time'' of
           Some t \<Rightarrow>
             (case time_Parse x timeLayout t of
                Inl err \<Rightarrow>
                  (processed\<lparr>Timestamp := now\<rparr>,
                   [LogError (''failed to parse _time field, will use current time as timestamp: '' @ err)])
              | Inr parsed \<Rightarrow> (processed\<lparr>Timestamp := parsed\<rparr>, []))
         | None \<Rightarrow> (processed\<lparr>Timestamp := now\<rparr>, []))"

text \<open>
  The goroutine of \<open>BatchedRepositoryPublisher\<close> is a loop around one \<open>select\<close>.
  A step is one pass through the \<open>select\<close>: the case taken, the instant \<open>now\<close> at
  which it is taken and the failures of the \<open>AddBatch\<close> call it may make. The state
  holds \<open>accumulated\<close>, the instant at which the channel of \<open>time.After\<close> fires, the
  store, and the history of the batches handed to \<open>repo.AddBatch\<close>.
\<close>

datatype select_case = Timeout | Adder Event

record PublisherState =
  accumulated :: "Event list"
  timeout :: time
  repo :: Db
  flushed :: "Event list list"
  plogs :: "log_entry list"

definition publisher_init :: "time \<Rightarrow> Db \<Rightarrow> PublisherState" where
  "publisher_init now db =
     \<lparr>accumulated = [], timeout = now + 1 * Second, repo = db, flushed = [], plogs = []\<rparr>"

fun publisher_step :: "time \<Rightarrow> TxFaults \<Rightarrow> select_case \<Rightarrow> PublisherState \<Rightarrow> PublisherState" where
  "publisher_step now f Timeout st =
     (if length (accumulated st) > 0
      then (let r = AddBatch f (repo st) (accumulated st)
            in st\<lparr>repo := store r, flushed := flushed st @ [accumulated st],
                  plogs := plogs st @ logs r,
                  accumulated := [], timeout := now + 1 * Second\<rparr>)
      else st\<lparr>timeout := now + 1 * Second\<rparr>)"
| "publisher_step now f (Adder evt) st =
     (let acc = accumulated st @ [evt]
      in if length acc \<ge> 1000
         then (let r = AddBatch f (repo st) acc
               in st\<lparr>repo := store r, flushed := flushed st @ [acc],
                     plogs := plogs st @ logs r @
                       (case result r of
                          Inl e \<Rightarrow> [LogError (''error when adding events: '' @ error_message e)]
                        | Inr _ \<Rightarrow> []),
                     accumulated := [], timeout := now + 1 * Second\<rparr>)
         else st\<lparr>accumulated := acc\<rparr>)"

text \<open>The timer's case can be taken once its instant has come; a send on \<open>adder\<close>
  can be received at any time.\<close>

fun enabled :: "time \<Rightarrow> select_case \<Rightarrow> PublisherState \<Rightarrow> bool" where
  "enabled now Timeout st \<longleftrightarrow> timeout st \<le> now"
| "enabled now (Adder evt) st \<longleftrightarrow> True"

fun publisher_run ::
  "(time \<times> TxFaults \<times> select_case) list \<Rightarrow> PublisherState \<Rightarrow> PublisherState" where
  "publisher_run [] st = st"
| "publisher_run ((now, f, c) # steps) st = publisher_run steps (publisher_step now f c st)"

section \<open>Concrete inputs\<close>

text \<open>
  Instances of the external functions, used to run the model on concrete inputs: a
  pattern is a literal that matches the strings containing it, lower-casing is that of
  ASCII letters, and an extraction rule \<open>(k, v)\<close> gives field \<open>k\<close> the value \<open>v\<close>
  on the lines that contain \<open>k=v\<close>.
\<close>

fun contains :: "string \<Rightarrow> string \<Rightarrow> bool" where
  "contains pat [] = (pat = [])"
| "contains pat (c # cs) = (take (length pat) (c # cs) = pat \<or> contains pat cs)"

definition ascii_lower :: "char \<Rightarrow> char" where
  "ascii_lower c =
     (case map_of (zip ''ABCDEFGHIJKLMNOPQRSTUVWXYZ'' ''abcdefghijklmnopqrstuvwxyz'') c of
        Some l \<Rightarrow> l | None \<Rightarrow> c)"

definition demo_externals :: "(string, (string \<times> string) list) Externals" where
  "demo_externals =
     \<lparr>MatchString = contains, ToLower = map ascii_lower,
      ExtractFields = (\<lambda>raw rules. map_of (filter (\<lambda>(k, v). contains (k @ ''='' @ v) raw) rules)),
      Compile = map ascii_lower,
      time_Parse = (\<lambda>layout t. if t = ''10'' then Inr 10 else Inl ''cannot parse'')\<rparr>"

definition demo_config :: "(string \<times> string) list Config" where
  "demo_config = \<lparr>HostName = ''h'',
     FieldExtractors = [(''status'', ''200''), (''status'', ''500''), (''status'', ''502''),
                        (''_time'', ''10''), (''_time'', ''noon'')]\<rparr>"

definition raw_no_time :: RawEvent where
  "raw_no_time = \<lparr>Raw = ''GET / status=200'', Source = ''a.log'', Offset = 0\<rparr>"

definition raw_bad_time :: RawEvent where
  "raw_bad_time = \<lparr>Raw = ''_TIME=noon GET /'', Source = ''a.log'', Offset = 17\<rparr>"

definition empty_db :: Db where
  "empty_db = \<lparr>Events = [], EventRaws = []\<rparr>"

definition db12 :: Db where
  "db12 = \<lparr>Events = [\<lparr>e_id = 1, e_source = ''a.log'', e_timestamp = 10, e_offset = 0\<rparr>,
                     \<lparr>e_id = 2, e_source = ''b.log'', e_timestamp = 20, e_offset = 0\<rparr>],
           EventRaws = [\<lparr>r_rowid = 1, r_raw = ''disk full status=500'', r_source = ''a.log''\<rparr>,
                        \<lparr>r_rowid = 2, r_raw = ''ok status=200'', r_source = ''b.log''\<rparr>]\<rparr>"

definition env_all :: ReadEnv where
  "env_all = \<lparr>fts_match = (\<lambda>s r. True), time_String = (\<lambda>t. Itoa t),
     timestamp_text = (\<lambda>t. Itoa t), maxid_query_err = None,
     maxid_no_row = False, page_query_err = (\<lambda>_. None), next_fail = (\<lambda>_. None), scan_err = (\<lambda>_. None), ids_query_err = None\<rparr>"

definition ev1 :: Event where
  "ev1 = \<lparr>Raw = ''disk full status=500'', Source = ''a.log'', Offset = 0, Host = ''h'', Timestamp = 10\<rparr>"

definition ev2 :: Event where
  "ev2 = \<lparr>Raw = ''ok status=200'', Source = ''b.log'', Offset = 0, Host = ''h'', Timestamp = 20\<rparr>"

definition evt500 :: EventWithId where
  "evt500 = \<lparr>Raw = ''disk full status=500'', Source = ''a.log'', Offset = 0, Host = [],
             Timestamp = 10, Id' = 1\<rparr>"

definition evt502 :: EventWithId where
  "evt502 = \<lparr>Raw = ''Bad Gateway STATUS=502'', Source = ''a.log'', Offset = 0, Host = [],
             Timestamp = 11, Id' = 2\<rparr>"

definition evt200 :: EventWithId where
  "evt200 = \<lparr>Raw = ''ok status=200'', Source = ''b.log'', Offset = 0, Host = [],
             Timestamp = 20, Id' = 3\<rparr>"

definition evt_plain :: EventWithId where
  "evt_plain = \<lparr>Raw = ''an Error without fields'', Source = ''b.log'', Offset = 0, Host = [],
             Timestamp = 21, Id' = 4\<rparr>"

text \<open>Two searches with the same map of forbidden fields, visited in the two possible
  orders.\<close>

definition search_a :: Search where
  "search_a = \<lparr>StartTime = None, EndTime = None, Fragments = [], NotFragments = [],
     SFields = [], NotFields = [(''region'', [''eu'']), (''status'', [''500''])],
     Sources = [], NotSources = []\<rparr>"

definition search_b :: Search where
  "search_b = \<lparr>StartTime = None, EndTime = None, Fragments = [], NotFragments = [],
     SFields = [], NotFields = [(''status'', [''500'']), (''region'', [''eu''])],
     Sources = [], NotSources = []\<rparr>"

definition ev3 :: Event where
  "ev3 = \<lparr>Raw = ''started'', Source = ''c.log'', Offset = 5, Host = ''h'', Timestamp = 30\<rparr>"

definition batch3 :: "Event list" where
  "batch3 = [ev1, ev3, ev3]"

text \<open>
  A full-text engine to run the model with: a row is found when one of the tokens of its
  raw text (runs of letters and digits, lower-cased) is a \<open>raw:\<close> term of the query
  string; the empty query string finds no row, as with FTS4.
\<close>

definition is_token_char :: "char \<Rightarrow> bool" where
  "is_token_char c \<longleftrightarrow>
     c \<in> set ''abcdefghijklmnopqrstuvwxyzABCDEFGHIJKLMNOPQRSTUVWXYZ0123456789''"

fun tokens_acc :: "string \<Rightarrow> string \<Rightarrow> string list" where
  "tokens_acc acc [] = (if acc = [] then [] else [rev acc])"
| "tokens_acc acc (c # cs) =
     (if is_token_char c then tokens_acc (ascii_lower c # acc) cs
      else (if acc = [] then [] else [rev acc]) @ tokens_acc [] cs)"

definition demo_fts :: "string \<Rightarrow> EventRawsRow \<Rightarrow> bool" where
  "demo_fts s r \<longleftrightarrow> list_ex (\<lambda>w. contains (''raw:'' @ w @ '' '') s) (tokens_acc [] (r_raw r))"

definition env_fts :: ReadEnv where
  "env_fts = env_all\<lparr>fts_match := demo_fts\<rparr>"

text \<open>The two searches with the required fragment \<open>status\<close> added.\<close>

definition search_c :: Search where
  "search_c = search_a\<lparr>Fragments := [''status'']\<rparr>"

definition search_d :: Search where
  "search_d = search_b\<lparr>Fragments := [''status'']\<rparr>"


text \<open>A driver that stores \<open>t\<close> as its digits followed by \<open>+00:00\<close>, while
  \<open>String\<close> gives the digits followed by \<open> +0000 UTC\<close>; and a store of three
  events.\<close>

definition env_text :: ReadEnv where
  "env_text = env_all\<lparr>timestamp_text := (\<lambda>t. Itoa t @ ''+00:00''),
                       time_String := (\<lambda>t. Itoa t @ '' +0000 UTC'')\<rparr>"

definition db123 :: Db where
  "db123 = db12\<lparr>Events := Events db12 @ [\<lparr>e_id = 3, e_source = ''c.log'', e_timestamp = 30, e_offset = 0\<rparr>],
                 EventRaws := EventRaws db12 @ [\<lparr>r_rowid = 3, r_raw = ''started'', r_source = ''c.log''\<rparr>]\<rparr>"




section \<open>Vocabulary for the refinement\<close>

text \<open>A field constraint \<open>(key, patterns)\<close> matches when the event has the field and
  one of the patterns matches its value.\<close>

definition field_matches ::
  "('re \<Rightarrow> string \<Rightarrow> bool) \<Rightarrow> (string \<rightharpoonup> string) \<Rightarrow> string \<times> 're list \<Rightarrow> bool" where
  "field_matches M evtFields kv =
     (case evtFields (fst kv) of None \<Rightarrow> False | Some v \<Rightarrow> list_ex (\<lambda>p. M p v) (snd kv))"

definition field_present :: "(string \<rightharpoonup> string) \<Rightarrow> string \<times> 're list \<Rightarrow> bool" where
  "field_present evtFields kv \<longleftrightarrow> evtFields (fst kv) \<noteq> None"

section \<open>Vocabulary for the paging of FilterStream\<close>


definition scan_ok :: "ReadEnv \<Rightarrow> EventsRow \<times> EventRawsRow \<Rightarrow> bool" where
  "scan_ok env row \<longleftrightarrow> scan_err env (e_id (fst row)) = None"






section \<open>Vocabulary for the duplicates of a batch\<close>

text \<open>
  Event \<open>i\<close> of a batch is a duplicate when its triple (source, timestamp, offset) is
  in the store before the batch or is that of an earlier event of the batch.
  \<open>skipped_from\<close> counts the duplicates of a source among the first \<open>n\<close> events,
  \<open>novel_count\<close> the events that are not duplicates. \<open>batch_inv\<close> is the invariant
  of the loop of \<open>AddBatch\<close> after \<open>n\<close> events.
\<close>

definition triple :: "Event \<Rightarrow> string \<times> time \<times> int" where
  "triple evt = (Source evt, Timestamp evt, Offset evt)"

definition row_triple :: "EventsRow \<Rightarrow> string \<times> time \<times> int" where
  "row_triple row = (e_source row, e_timestamp row, e_offset row)"

definition duplicate_at :: "Db \<Rightarrow> Event list \<Rightarrow> nat \<Rightarrow> bool" where
  "duplicate_at db events i \<longleftrightarrow>
     triple (events ! i) \<in> set (map row_triple (Events db)) \<union> set (map triple (take i events))"

definition skipped_from :: "Db \<Rightarrow> Event list \<Rightarrow> nat \<Rightarrow> string \<Rightarrow> nat" where
  "skipped_from db events n s =
     length (filter (\<lambda>i. duplicate_at db events i \<and> Source (events ! i) = s) [0..<n])"

definition novel_count :: "Db \<Rightarrow> Event list \<Rightarrow> nat \<Rightarrow> nat" where
  "novel_count db events n = length (filter (\<lambda>i. \<not> duplicate_at db events i) [0..<n])"

definition stored_row :: "int \<Rightarrow> Event \<Rightarrow> EventsRow" where
  "stored_row i evt = \<lparr>e_id = i, e_source = Source evt, e_timestamp = Timestamp evt,
                       e_offset = Offset evt\<rparr>"

definition stored_raw :: "int \<Rightarrow> Event \<Rightarrow> EventRawsRow" where
  "stored_raw i evt = \<lparr>r_rowid = i, r_raw = Raw evt, r_source = Source evt\<rparr>"

fun skips_of :: "string \<Rightarrow> log_entry \<Rightarrow> bool" where
  "skips_of s (LogSkipped v k) = (k = s)"
| "skips_of s _ = False"

definition batch_inv :: "Db \<Rightarrow> Event list \<Rightarrow> nat \<Rightarrow> TxState \<Rightarrow> bool" where
  "batch_inv db events n st \<longleftrightarrow>
     set (map row_triple (Events (tx_db st)))
       = set (map row_triple (Events db)) \<union> set (map triple (take n events))
   \<and> set (Events db) \<subseteq> set (Events (tx_db st))
   \<and> list_all (\<lambda>r. 0 < e_id r) (Events (tx_db st))
   \<and> length (tx_ret st) = length events
   \<and> (\<forall>j<length events. n \<le> j \<longrightarrow> tx_ret st ! j = 0)
   \<and> (\<forall>j<n. duplicate_at db events j \<longrightarrow> tx_ret st ! j = 0)
   \<and> (\<forall>j<n. \<not> duplicate_at db events j \<longrightarrow>
         0 < tx_ret st ! j \<and> tx_ret st ! j \<notin> set (map e_id (Events db))
       \<and> stored_row (tx_ret st ! j) (events ! j) \<in> set (Events (tx_db st))
       \<and> stored_raw (tx_ret st ! j) (events ! j) \<in> set (EventRaws (tx_db st)))
   \<and> length (Events (tx_db st)) = length (Events db) + novel_count db events n
   \<and> distinct (map fst (tx_numberOfDuplicates st))
   \<and> (\<forall>s. map_of (tx_numberOfDuplicates st) s
            = (if skipped_from db events n s = 0 then None
               else Some (int (skipped_from db events n s))))"

section \<open>PublishEvent: the timestamp of the enqueued event\<close>

text \<open>
  Claim C8. When the extracted fields of a \<open>RawEvent\<close> have no \<open>_time\<close> entry, or
  have one that \<open>time.Parse\<close> rejects under the given layout, the \<open>Event\<close> sent to
  the accumulator carries the raw text, source and offset of the \<open>RawEvent\<close>, the
  configured host name, and as timestamp the wall-clock time read during the call
  (not the zero value). In the second case exactly one warning is logged, in the first
  none; the call returns no error in either case.
\<close>

theorem PublishEvent_fallback:
  "(ExtractFields x (ToLower x (Raw evt)) (FieldExtractors cfg) ''_time'' = None
      \<longrightarrow> PublishEvent x cfg now evt timeLayout =
            (\<lparr>Raw = Raw evt, Source = Source evt, Offset = Offset evt, Host = HostName cfg,
              Timestamp = now\<rparr>, []))
   \<and> (\<forall>t err. ExtractFields x (ToLower x (Raw evt)) (FieldExtractors cfg) ''_time'' = Some t
          \<and> time_Parse x timeLayout t = Inl err
      \<longrightarrow> PublishEvent x cfg now evt timeLayout =
            (\<lparr>Raw = Raw evt, Source = Source evt, Offset = Offset evt, Host = HostName cfg,
              Timestamp = now\<rparr>,
             [LogError (''failed to parse _time field, will use current time as timestamp: '' @ err)]))"
  by (simp add: PublishEvent_def)

theorem PublishEvent_fallback_witness:
  "PublishEvent demo_externals demo_config 77 raw_no_time ''2006-01-02'' =
     (\<lparr>Raw = ''GET / status=200'', Source = ''a.log'', Offset = 0, Host = ''h'', Timestamp = 77\<rparr>, [])
   \<and> PublishEvent demo_externals demo_config 77 raw_bad_time ''2006-01-02'' =
     (\<lparr>Raw = ''_TIME=noon GET /'', Source = ''a.log'', Offset = 17, Host = ''h'', Timestamp = 77\<rparr>,
      [LogError ''failed to parse _time field, will use current time as timestamp: cannot parse''])"
proof -
  have a: "ExtractFields demo_externals (ToLower demo_externals (Raw raw_no_time))
         (FieldExtractors demo_config) ''_time'' = None"
    by (simp add: demo_externals_def demo_config_def raw_no_time_def ascii_lower_def)
  have b: "ExtractFields demo_externals (ToLower demo_externals (Raw raw_bad_time))
         (FieldExtractors demo_config) ''_time'' = Some ''noon''"
    by (simp add: demo_externals_def demo_config_def raw_bad_time_def ascii_lower_def)
  have c: "time_Parse demo_externals ''2006-01-02'' ''noon'' = Inl ''cannot parse''"
    by (simp add: demo_externals_def)
  from a PublishEvent_fallback [of demo_externals raw_no_time demo_config 77 "''2006-01-02''"]
  have 1: "PublishEvent demo_externals demo_config 77 raw_no_time ''2006-01-02'' =
     (\<lparr>Raw = ''GET / status=200'', Source = ''a.log'', Offset = 0, Host = ''h'', Timestamp = 77\<rparr>, [])"
    by (simp add: raw_no_time_def demo_config_def)
  from b c PublishEvent_fallback [of demo_externals raw_bad_time demo_config 77 "''2006-01-02''"]
  have 2: "PublishEvent demo_externals demo_config 77 raw_bad_time ''2006-01-02'' =
     (\<lparr>Raw = ''_TIME=noon GET /'', Source = ''a.log'', Offset = 17, Host = ''h'', Timestamp = 77\<rparr>,
      [LogError ''failed to parse _time field, will use current time as timestamp: cannot parse''])"
    by (simp add: raw_bad_time_def demo_config_def)
  from 1 2 show ?thesis by simp
qed

section \<open>FilterStream: paging\<close>

lemma scan_page_fst:
  "fst (scan_page env rows) = map row_event (filter (scan_ok env) rows)"
  by (induction rows) (auto simp: scan_ok_def split: prod.splits option.splits)


lemma scan_page_length: "snd (snd (scan_page env rows)) = length rows"
  by (induction rows) (auto split: prod.splits option.splits)

text \<open>One pass of the paging loop, by what the query does.\<close>

lemma loop_err:
  "page_query_err env offset = Some err \<Longrightarrow>
   FilterStream_loop env db so ns fr st en maxID offset =
     \<lparr>pages = [],
      slogs = [LogStmt (filter_stmt (time_String env) maxID st en (match_string so ns fr) offset),
               LogError (''error when getting filtered events in FilterStream: '' @ err)]\<rparr>"
  by (subst FilterStream_loop.simps) simp

lemma loop_short:
  "page_query_err env offset = None \<Longrightarrow>
   length (fetch_page env db maxID st en (match_string so ns fr) offset) < filterStreamPageSize \<Longrightarrow>
   FilterStream_loop env db so ns fr st en maxID offset =
     \<lparr>pages = [fst (scan_page env (fetch_page env db maxID st en (match_string so ns fr) offset))],
      slogs = LogStmt (filter_stmt (time_String env) maxID st en (match_string so ns fr) offset)
              # fst (snd (scan_page env (fetch_page env db maxID st en (match_string so ns fr) offset)))\<rparr>"
proof -
  assume a: "page_query_err env offset = None"
     and b: "length (fetch_page env db maxID st en (match_string so ns fr) offset) < filterStreamPageSize"
  obtain evts lg n where
    sp: "scan_page env (fetch_page env db maxID st en (match_string so ns fr) offset) = (evts, lg, n)"
    by (rule prod_cases3)
  from sp have n: "n = length (fetch_page env db maxID st en (match_string so ns fr) offset)"
    by (rule scan_page_count)
  show ?thesis
    by (subst FilterStream_loop.simps) (simp add: a b sp n)
qed

lemma loop_full:
  "page_query_err env offset = None \<Longrightarrow>
   \<not> length (fetch_page env db maxID st en (match_string so ns fr) offset) < filterStreamPageSize \<Longrightarrow>
   FilterStream_loop env db so ns fr st en maxID offset =
     \<lparr>pages = fst (scan_page env (fetch_page env db maxID st en (match_string so ns fr) offset))
              # pages (FilterStream_loop env db so ns fr st en maxID (offset + filterStreamPageSize)),
      slogs = LogStmt (filter_stmt (time_String env) maxID st en (match_string so ns fr) offset)
              # fst (snd (scan_page env (fetch_page env db maxID st en (match_string so ns fr) offset)))
              @ slogs (FilterStream_loop env db so ns fr st en maxID (offset + filterStreamPageSize))\<rparr>"
proof -
  assume a: "page_query_err env offset = None"
     and b: "\<not> length (fetch_page env db maxID st en (match_string so ns fr) offset) < filterStreamPageSize"
  obtain evts lg n where
    sp: "scan_page env (fetch_page env db maxID st en (match_string so ns fr) offset) = (evts, lg, n)"
    by (rule prod_cases3)
  from sp have n: "n = length (fetch_page env db maxID st en (match_string so ns fr) offset)"
    by (rule scan_page_count)
  show ?thesis
    by (subst FilterStream_loop.simps) (simp add: a b sp n Let_def)
qed

lemma fetch_page_take:
  "\<exists>m. fetch_page env db maxID st en ms offset = take m (drop offset (selected env db maxID st en ms))"
proof (cases "next_fail env offset")
  case None
  then have "fetch_page env db maxID st en ms offset
               = take filterStreamPageSize (drop offset (selected env db maxID st en ms))"
    by (simp add: fetch_page_def result_rows_def)
  then show ?thesis by blast
next
  case (Some k)
  then have "fetch_page env db maxID st en ms offset
               = take (min k filterStreamPageSize) (drop offset (selected env db maxID st en ms))"
    by (simp add: fetch_page_def result_rows_def)
  then show ?thesis by blast
qed


lemma fetch_page_full:
  "\<not> length (fetch_page env db maxID st en ms offset) < filterStreamPageSize \<Longrightarrow>
   fetch_page env db maxID st en ms offset
     = take filterStreamPageSize (drop offset (selected env db maxID st en ms))"
  by (auto simp: fetch_page_def result_rows_def split: option.splits)

lemma fetch_full_measure:
  "\<not> length (fetch_page env db maxID st en ms offset) < filterStreamPageSize \<Longrightarrow>
   offset + filterStreamPageSize \<le> length (selected env db maxID st en ms)"
  by (auto simp: fetch_page_def result_rows_def filterStreamPageSize_def split: option.splits)

lemma loop_concat:
  "\<exists>m. concat (pages (FilterStream_loop env db so ns fr st en maxID offset))
        = map row_event (filter (scan_ok env)
            (take m (drop offset (selected env db maxID st en (match_string so ns fr)))))"
proof (induction "length (selected env db maxID st en (match_string so ns fr)) - offset"
         arbitrary: offset rule: less_induct)
  case less
  let ?sel = "selected env db maxID st en (match_string so ns fr)"
  show ?case
  proof (cases "page_query_err env offset")
    case (Some err)
    have "concat (pages (FilterStream_loop env db so ns fr st en maxID offset))
            = map row_event (filter (scan_ok env) (take 0 (drop offset ?sel)))"
      by (simp add: loop_err [OF Some])
    then show ?thesis by blast
  next
    case None
    show ?thesis
    proof (cases "length (fetch_page env db maxID st en (match_string so ns fr) offset) < filterStreamPageSize")
      case True
      obtain k where k: "fetch_page env db maxID st en (match_string so ns fr) offset
                           = take k (drop offset ?sel)"
        using fetch_page_take by blast
      have "concat (pages (FilterStream_loop env db so ns fr st en maxID offset))
            = map row_event (filter (scan_ok env) (take k (drop offset ?sel)))"
        by (simp add: loop_short [OF None True] scan_page_fst k)
      then show ?thesis by blast
    next
      case False
      have le: "offset + filterStreamPageSize \<le> length ?sel"
        using False by (rule fetch_full_measure)
      then have "length ?sel - (offset + filterStreamPageSize) < length ?sel - offset"
        by (simp add: filterStreamPageSize_def)
      from less [OF this] obtain m where
        m: "concat (pages (FilterStream_loop env db so ns fr st en maxID (offset + filterStreamPageSize)))
              = map row_event (filter (scan_ok env) (take m (drop (offset + filterStreamPageSize) ?sel)))"
        by blast
      have "take (filterStreamPageSize + m) (drop offset ?sel)
              = take filterStreamPageSize (drop offset ?sel)
                @ take m (drop (offset + filterStreamPageSize) ?sel)"
        by (simp add: take_add add.commute)
      then have "concat (pages (FilterStream_loop env db so ns fr st en maxID offset))
            = map row_event (filter (scan_ok env) (take (filterStreamPageSize + m) (drop offset ?sel)))"
        by (simp add: loop_full [OF None False] scan_page_fst fetch_page_full [OF False] m)
      then show ?thesis by blast
    qed
  qed
qed


lemma selected_below: "row \<in> set (selected env db maxID st en ms) \<Longrightarrow> e_id (fst row) < maxID"
  by (auto simp: selected_def)



lemma loop_below_max:
  assumes "page \<in> set (pages (FilterStream_loop env db so ns fr st en maxID offset))"
      and "e \<in> set page"
  shows "Id' e < maxID"
proof -
  obtain m where m: "concat (pages (FilterStream_loop env db so ns fr st en maxID offset))
        = map row_event (filter (scan_ok env)
            (take m (drop offset (selected env db maxID st en (match_string so ns fr)))))"
    using loop_concat by blast
  from assms have "e \<in> set (concat (pages (FilterStream_loop env db so ns fr st en maxID offset)))"
    by auto
  then obtain row where "row \<in> set (selected env db maxID st en (match_string so ns fr))"
      and "e = row_event row"
    unfolding m by (auto dest: in_set_takeD in_set_dropD)
  then show ?thesis
    using selected_below by (simp add: row_event_def)
qed














text \<open>The time bounds are bounds on the stored text: with \<open>endTime = 20\<close> the event
  whose timestamp is 20 is left out, because its stored text \<open>20+00:00\<close> comes after
  the text \<open>20 +0000 UTC\<close> of the bound.\<close>

lemma FilterStream_time_bound_is_text: "map (map Id') (pages (FilterStream env_text db123 [] [] [] None (Some 20))) = [[1]]"
  by (simp add: FilterStream_def env_text_def env_all_def db123_def db12_def max_id_def FilterStream_loop.simps
      fetch_page_def result_rows_def selected_def joined_def in_bounds_def order_key_def row_event_def
      filterStreamPageSize_def Itoa_def nat_digits.simps)

section \<open>FilterStream after AddBatch\<close>

lemma FilterStream_below_max_id:
  assumes "max_id db = Some maxID"
      and "page \<in> set (pages (FilterStream env db so ns fr st en))"
      and "e \<in> set page"
  shows "Id' e < maxID"
proof (cases "maxid_query_err env = None \<and> \<not> maxid_no_row env")
  case True
  with assms(1) have "FilterStream env db so ns fr st en
                        = FilterStream_loop env db so ns fr st en maxID 0"
    by (simp add: FilterStream_def)
  with assms(2,3) show ?thesis
    using loop_below_max by simp
next
  case False
  with assms(2) show ?thesis by (auto simp: FilterStream_def split: option.splits)
qed

text \<open>
  Claim C1 says that after \<open>AddBatch(B)\<close>, for a batch without duplicates, a
  \<open>FilterStream\<close> without constraints yields exactly the events of \<open>B\<close> and of the
  prior state, the event with the largest identity included. The statement of
  \<open>FilterStream\<close> selects \<open>e.id < maxID\<close>, so no stream holds the event whose
  identity is the largest (lemma \<open>FilterStream_below_max_id\<close>). Here the batch of
  two events is added to the empty store without any failure and gets the identities 1
  and 2; the stream that follows, with a full-text engine that accepts every row, holds
  one page with the event 1 alone: the event 2 is missing.
\<close>

theorem AddBatch_FilterStream_newest_missing:
  "AddBatch no_faults empty_db [ev1, ev2]
     = \<lparr>result = Inr [1, 2], store = db12, logs = [LogAdded 2], tx = Committed\<rparr>
   \<and> pages (FilterStream env_all db12 [] [] [] None None) =
       [[\<lparr>Raw = ''disk full status=500'', Source = ''a.log'', Offset = 0, Host = [],
          Timestamp = 10, Id' = 1\<rparr>]]"
proof
  show "AddBatch no_faults empty_db [ev1, ev2]
     = \<lparr>result = Inr [1, 2], store = db12, logs = [LogAdded 2], tx = Committed\<rparr>"
    by (simp add: AddBatch_def no_faults_def empty_db_def ev1_def ev2_def db12_def init_state_def
      exec_insert_event_def exec_insert_raw_def next_rowid_def same_triple_def
      expectedConstraintViolationForDuplicates_def)
  show "pages (FilterStream env_all db12 [] [] [] None None) =
       [[\<lparr>Raw = ''disk full status=500'', Source = ''a.log'', Offset = 0, Host = [],
          Timestamp = 10, Id' = 1\<rparr>]]"
    by (simp add: FilterStream_def env_all_def db12_def max_id_def FilterStream_loop.simps
      fetch_page_def result_rows_def selected_def joined_def in_bounds_def order_key_def row_event_def
      filterStreamPageSize_def)
qed

section \<open>FilterStream: the full-text query string\<close>

text \<open>
  Claim C3 says that the query string is the sources ORed, ANDed with the NOT of each
  notSource, ANDed with the fragments ORed, and that without sources, notSources and
  fragments no full-text constraint is put on the scan. The strings the code builds:
  with a notSource and no source the closing parenthesis has no opening one, and with
  no fragment the string ends in a dangling \<open>AND\<close>; the terms of a group are separated
  by blanks, with no \<open>OR\<close>; and with nothing given the statement still holds the
  clause \<open>AND EventRaws MATCH ''\<close> with an empty query.
\<close>

theorem match_string_cases:
  "match_string [] [''b''] [] = ''NOT source:b ) AND ''
   \<and> match_string [''a''] [] [] = ''(source:a ) AND ''
   \<and> match_string [''a'', ''c''] [''b''] [''x'', ''y'']
       = ''(source:a source:c NOT source:b ) AND (raw:x raw:y )''
   \<and> match_string [] [] [] = []
   \<and> filter_stmt tS 2 None None (match_string [] [] []) 0 =
       ''SELECT e.id, e.source, e.timestamp, r.raw FROM Events e INNER JOIN EventRaws r ON r.rowid = e.id WHERE e.id < 2 AND EventRaws MATCH ''
       @ [CHR 0x27, CHR 0x27] @ '' ORDER BY e.timestamp DESC, e.id DESC LIMIT 1000 OFFSET 0;''"
  by (simp add: filter_stmt_def match_string_def Itoa_def nat_digits.simps filterStreamPageSize_def)

section \<open>AddBatch: errors\<close>

lemma AddBatch_exec_error_rolls_back:
  "begin_err f = None \<Longrightarrow> AddBatch_loop f 0 events (init_state db events) = Inl e \<Longrightarrow>
   AddBatch f db events = \<lparr>result = Inl e, store = db, logs = [], tx = RolledBack\<rparr>"
  by (simp add: AddBatch_def)

lemma AddBatch_commit_error_not_returned:
  "begin_err f = None \<Longrightarrow> AddBatch_loop f 0 events (init_state db events) = Inr st' \<Longrightarrow>
   commit_err f = Some err \<Longrightarrow>
   result (AddBatch f db events) = Inr (tx_ret st') \<and> store (AddBatch f db events) = db
   \<and> tx (AddBatch f db events) = CommitFailed err"
  by (simp add: AddBatch_def)

text \<open>
  Claim C4 says that any database error that is not a duplicate, the failure of the
  commit included, is returned to the caller. An error of a statement inside the loop is
  (lemma \<open>AddBatch_exec_error_rolls_back\<close>). The error of \<open>tx.Commit()\<close> is not
  (lemma \<open>AddBatch_commit_error_not_returned\<close>): here the commit of a batch of one
  new event fails, nothing is stored, and \<open>AddBatch\<close> returns the identity 1 and no
  error.
\<close>

theorem AddBatch_commit_fails:
  "AddBatch (no_faults\<lparr>commit_err := Some ''disk I/O error''\<rparr>) empty_db [ev1]
     = \<lparr>result = Inr [1], store = empty_db, logs = [LogAdded 1],
        tx = CommitFailed ''disk I/O error''\<rparr>"
  by (simp add: AddBatch_def no_faults_def empty_db_def ev1_def init_state_def
      exec_insert_event_def exec_insert_raw_def next_rowid_def same_triple_def)

section \<open>The batched publisher: when it flushes\<close>

lemma step_keeps_bound:
  "length (accumulated st) < 1000 \<Longrightarrow> length (accumulated (publisher_step now f c st)) < 1000"
  by (cases c) (simp_all add: Let_def)

lemma run_keeps_bound:
  "length (accumulated st) < 1000 \<Longrightarrow> length (accumulated (publisher_run steps st)) < 1000"
proof (induction steps arbitrary: st)
  case Nil
  then show ?case by simp
next
  case (Cons s steps)
  obtain now f c where s: "s = (now, f, c)" by (cases s) auto
  from Cons.prems have "length (accumulated (publisher_step now f c st)) < 1000"
    by (rule step_keeps_bound)
  then show ?case unfolding s by (simp add: Cons.IH)
qed

lemma step_flushed_sizes:
  "length (accumulated st) < 1000 \<Longrightarrow> list_all (\<lambda>b. 0 < length b \<and> length b \<le> 1000) (flushed st)
   \<Longrightarrow> list_all (\<lambda>b. 0 < length b \<and> length b \<le> 1000) (flushed (publisher_step now f c st))"
  by (cases c) (simp_all add: Let_def)

lemma run_flushed_sizes:
  "length (accumulated st) < 1000 \<Longrightarrow> list_all (\<lambda>b. 0 < length b \<and> length b \<le> 1000) (flushed st)
   \<Longrightarrow> list_all (\<lambda>b. 0 < length b \<and> length b \<le> 1000) (flushed (publisher_run steps st))"
proof (induction steps arbitrary: st)
  case Nil
  then show ?case by simp
next
  case (Cons s steps)
  obtain now f c where s: "s = (now, f, c)" by (cases s) auto
  have 1: "length (accumulated (publisher_step now f c st)) < 1000"
    using Cons.prems(1) by (rule step_keeps_bound)
  have 2: "list_all (\<lambda>b. 0 < length b \<and> length b \<le> 1000) (flushed (publisher_step now f c st))"
    using Cons.prems by (rule step_flushed_sizes)
  from Cons.IH [OF 1 2] show ?case unfolding s by simp
qed

lemma run_append: "publisher_run (a @ b) st = publisher_run b (publisher_run a st)"
  by (induction a arbitrary: st) auto

lemma run_adders:
  "length (accumulated st) + length xs < 1000 \<Longrightarrow>
   publisher_run (map (\<lambda>(now, f, evt). (now, f, Adder evt)) xs) st
     = st\<lparr>accumulated := accumulated st @ map (\<lambda>(now, f, evt). evt) xs\<rparr>"
proof (induction xs arbitrary: st)
  case Nil
  then show ?case by simp
next
  case (Cons x xs)
  obtain now f evt where x: "x = (now, f, evt)" by (cases x) auto
  have step: "publisher_step now f (Adder evt) st = st\<lparr>accumulated := accumulated st @ [evt]\<rparr>"
    using Cons.prems by (simp add: Let_def)
  have "length (accumulated (st\<lparr>accumulated := accumulated st @ [evt]\<rparr>)) + length xs < 1000"
    using Cons.prems by simp
  from Cons.IH [OF this] show ?case unfolding x
    by (simp add: step del: publisher_step.simps)
qed

text \<open>
  Claim C7. Receiving an event when the buffer holds fewer than 999 only appends it;
  receiving the event that makes the buffer 1000 long hands the whole buffer to
  \<open>AddBatch\<close> at once, empties it and sets the timer to one second from then. When
  the timer's case is taken, whatever is accumulated (a single event too) is handed to
  \<open>AddBatch\<close>, the buffer is empty afterwards and the timer is set to one second from
  then, so that its case cannot be taken again before a second has passed. Hence from
  the start, after any sequence of steps, the buffer holds fewer than 1000 events and
  every batch flushed had between 1 and 1000 events; and fewer than 1000 submissions
  (at least one) cause no flush until the timer's case is taken, which flushes them
  all in one batch.
\<close>

theorem publisher_flush_discipline:
  "(length (accumulated st) < 999 \<longrightarrow>
      publisher_step now f (Adder evt) st = st\<lparr>accumulated := accumulated st @ [evt]\<rparr>)
   \<and> (length (accumulated st) = 999 \<longrightarrow>
        accumulated (publisher_step now f (Adder evt) st) = []
      \<and> flushed (publisher_step now f (Adder evt) st) = flushed st @ [accumulated st @ [evt]]
      \<and> repo (publisher_step now f (Adder evt) st)
          = store (AddBatch f (repo st) (accumulated st @ [evt]))
      \<and> timeout (publisher_step now f (Adder evt) st) = now + 1 * Second)
   \<and> accumulated (publisher_step now f Timeout st) = []
   \<and> flushed (publisher_step now f Timeout st)
       = flushed st @ (if accumulated st = [] then [] else [accumulated st])
   \<and> repo (publisher_step now f Timeout st)
       = (if accumulated st = [] then repo st else store (AddBatch f (repo st) (accumulated st)))
   \<and> timeout (publisher_step now f Timeout st) = now + 1 * Second
   \<and> enabled now' Timeout (publisher_step now f Timeout st) = (now + 1 * Second \<le> now')
   \<and> length (accumulated (publisher_run steps (publisher_init t0 db))) < 1000
   \<and> list_all (\<lambda>b. 0 < length b \<and> length b \<le> 1000)
        (flushed (publisher_run steps (publisher_init t0 db)))
   \<and> (xs \<noteq> [] \<and> length xs < 1000 \<longrightarrow>
        flushed (publisher_run (map (\<lambda>(now, f, evt). (now, f, Adder evt)) xs)
                   (publisher_init t0 db)) = []
      \<and> flushed (publisher_run (map (\<lambda>(now, f, evt). (now, f, Adder evt)) xs @ [(now, f, Timeout)])
                   (publisher_init t0 db)) = [map (\<lambda>(now, f, evt). evt) xs])"
proof -
  have init: "length (accumulated (publisher_init t0 db)) < 1000"
             "list_all (\<lambda>b. 0 < length b \<and> length b \<le> 1000) (flushed (publisher_init t0 db))"
             "accumulated (publisher_init t0 db) = []" "flushed (publisher_init t0 db) = []"
    by (simp_all add: publisher_init_def)
  have a: "length (accumulated st) < 999 \<longrightarrow>
      publisher_step now f (Adder evt) st = st\<lparr>accumulated := accumulated st @ [evt]\<rparr>"
    by (simp add: Let_def)
  have b: "length (accumulated st) = 999 \<longrightarrow>
        accumulated (publisher_step now f (Adder evt) st) = []
      \<and> flushed (publisher_step now f (Adder evt) st) = flushed st @ [accumulated st @ [evt]]
      \<and> repo (publisher_step now f (Adder evt) st)
          = store (AddBatch f (repo st) (accumulated st @ [evt]))
      \<and> timeout (publisher_step now f (Adder evt) st) = now + 1 * Second"
    by (simp add: Let_def)
  have c: "accumulated (publisher_step now f Timeout st) = []
   \<and> flushed (publisher_step now f Timeout st)
       = flushed st @ (if accumulated st = [] then [] else [accumulated st])
   \<and> repo (publisher_step now f Timeout st)
       = (if accumulated st = [] then repo st else store (AddBatch f (repo st) (accumulated st)))
   \<and> timeout (publisher_step now f Timeout st) = now + 1 * Second
   \<and> enabled now' Timeout (publisher_step now f Timeout st) = (now + 1 * Second \<le> now')"
    by (simp add: Let_def)
  have d: "length (accumulated (publisher_run steps (publisher_init t0 db))) < 1000"
    by (rule run_keeps_bound [OF init(1)])
  have e: "list_all (\<lambda>b. 0 < length b \<and> length b \<le> 1000)
        (flushed (publisher_run steps (publisher_init t0 db)))"
    by (rule run_flushed_sizes [OF init(1) init(2)])
  have g: "xs \<noteq> [] \<and> length xs < 1000 \<longrightarrow>
        flushed (publisher_run (map (\<lambda>(now, f, evt). (now, f, Adder evt)) xs)
                   (publisher_init t0 db)) = []
      \<and> flushed (publisher_run (map (\<lambda>(now, f, evt). (now, f, Adder evt)) xs @ [(now, f, Timeout)])
                   (publisher_init t0 db)) = [map (\<lambda>(now, f, evt). evt) xs]"
  proof
    assume h: "xs \<noteq> [] \<and> length xs < 1000"
    then have "length (accumulated (publisher_init t0 db)) + length xs < 1000"
      by (simp add: init(3))
    from run_adders [OF this]
    have r: "publisher_run (map (\<lambda>(now, f, evt). (now, f, Adder evt)) xs) (publisher_init t0 db)
       = (publisher_init t0 db)\<lparr>accumulated := map (\<lambda>(now, f, evt). evt) xs\<rparr>"
      by (simp add: init(3))
    show "flushed (publisher_run (map (\<lambda>(now, f, evt). (now, f, Adder evt)) xs)
                   (publisher_init t0 db)) = []
      \<and> flushed (publisher_run (map (\<lambda>(now, f, evt). (now, f, Adder evt)) xs @ [(now, f, Timeout)])
                   (publisher_init t0 db)) = [map (\<lambda>(now, f, evt). evt) xs]"
      using h by (simp add: run_append r init(4) Let_def)
  qed
  from a b c d e g show ?thesis by blast
qed

theorem publisher_flush_discipline_witness:
  "flushed (publisher_run [(100, no_faults, Adder ev1), (200, no_faults, Adder ev2)]
      (publisher_init 0 empty_db)) = []
   \<and> flushed (publisher_run [(100, no_faults, Adder ev1), (200, no_faults, Adder ev2),
                               (1000000000, no_faults, Timeout)]
      (publisher_init 0 empty_db)) = [[ev1, ev2]]"
  using publisher_flush_discipline
    [of "publisher_init 0 empty_db" 1000000000 no_faults ev1 0 "[]" 0 empty_db
        "[(100, no_faults, ev1), (200, no_faults, ev2)]"]
  by simp

section \<open>shouldIncludeEvent: what decides inclusion\<close>

lemma frags_loop_iff:
  "frags_loop M raw frags inc \<longleftrightarrow> inc \<and> list_all (\<lambda>frag. M frag raw) frags"
  by (induction frags) auto

lemma notFrags_loop_iff:
  "notFrags_loop M raw frags inc \<longleftrightarrow> inc \<and> list_all (\<lambda>frag. \<not> M frag raw) frags"
  by (induction frags) auto

lemma anyMatch_loop_iff:
  "anyMatch_loop M v values acc \<longleftrightarrow> acc \<or> list_ex (\<lambda>p. M p v) values"
  by (induction "values" arbitrary: acc) auto

lemma field_matches_None:
  "evtFields key = None \<Longrightarrow> field_matches M evtFields (key, values) = False"
  by (simp add: field_matches_def)

lemma field_matches_Some:
  "evtFields key = Some v \<Longrightarrow>
   field_matches M evtFields (key, values) = list_ex (\<lambda>p. M p v) values"
  by (simp add: field_matches_def)

lemma field_present_pair:
  "field_present evtFields (key, values) \<longleftrightarrow> evtFields key \<noteq> None"
  by (simp add: field_present_def)

lemma fields_loop_iff:
  "fields_loop M evtFields cf inc \<longleftrightarrow> inc \<and> list_all (field_matches M evtFields) cf"
proof (induction cf)
  case Nil
  show ?case by simp
next
  case (Cons kv cf)
  obtain key "values" where kv: "kv = (key, values)" by (cases kv)
  show ?case
  proof (cases "evtFields key")
    case None
    then show ?thesis by (simp add: kv field_matches_None)
  next
    case (Some v)
    then show ?thesis
      using Cons.IH by (simp add: kv field_matches_Some anyMatch_loop_iff)
  qed
qed

lemma notFields_loop_iff:
  "notFields_loop M evtFields cnf inc \<longleftrightarrow>
     inc \<and> list_all (\<lambda>kv. \<not> field_matches M evtFields kv) (takeWhile (field_present evtFields) cnf)"
proof (induction cnf)
  case Nil
  show ?case by simp
next
  case (Cons kv cnf)
  obtain key "values" where kv: "kv = (key, values)" by (cases kv)
  show ?case
  proof (cases "evtFields key")
    case None
    then show ?thesis by (simp add: kv field_present_pair)
  next
    case (Some v)
    then show ?thesis
      using Cons.IH by (simp add: kv field_matches_Some field_present_pair anyMatch_loop_iff)
  qed
qed

lemma shouldIncludeEvent_include:
  "snd (shouldIncludeEvent x evt cfg cF cNF cFi cNFi) \<longleftrightarrow>
     list_all (\<lambda>frag. MatchString x frag (ToLower x (Raw evt))) cF
   \<and> list_all (\<lambda>frag. \<not> MatchString x frag (ToLower x (Raw evt))) cNF
   \<and> list_all (field_matches (MatchString x) (fst (shouldIncludeEvent x evt cfg cF cNF cFi cNFi))) cFi
   \<and> list_all (\<lambda>kv. \<not> field_matches (MatchString x) (fst (shouldIncludeEvent x evt cfg cF cNF cFi cNFi)) kv)
       (takeWhile (field_present (fst (shouldIncludeEvent x evt cfg cF cNF cFi cNFi))) cNFi)"
  by (simp add: shouldIncludeEvent_def Let_def frags_loop_iff notFrags_loop_iff fields_loop_iff
        notFields_loop_iff)

lemma shouldIncludeEvent_fields:
  "fst (shouldIncludeEvent x evt cfg cF cNF cFi cNFi)
     = (ExtractFields x (ToLower x (Raw evt)) (FieldExtractors cfg))(''source'' \<mapsto> Source evt)"
  by (simp add: shouldIncludeEvent_def Let_def)

lemma shouldIncludeEvent_one_forbidden_field:
  "length cNFi \<le> 1 \<Longrightarrow>
   snd (shouldIncludeEvent x evt cfg cF cNF cFi cNFi) \<longleftrightarrow>
     list_all (\<lambda>frag. MatchString x frag (ToLower x (Raw evt))) cF
   \<and> list_all (\<lambda>frag. \<not> MatchString x frag (ToLower x (Raw evt))) cNF
   \<and> list_all (field_matches (MatchString x) (fst (shouldIncludeEvent x evt cfg cF cNF cFi cNFi))) cFi
   \<and> list_all (\<lambda>kv. \<not> field_matches (MatchString x) (fst (shouldIncludeEvent x evt cfg cF cNF cFi cNFi)) kv)
       cNFi"
proof -
  assume "length cNFi \<le> 1"
  then have "cNFi = [] \<or> (\<exists>kv. cNFi = [kv])"
    by (cases cNFi) auto
  then show ?thesis
    by (auto simp: shouldIncludeEvent_include field_matches_def field_present_def split: option.splits)
qed

lemma shouldIncludeEvent_examples:
  "snd (shouldIncludeEvent demo_externals evt502 demo_config [] []
          (CompileMap demo_externals [(''status'', [''500'', ''502''])]) [])
   \<and> \<not> snd (shouldIncludeEvent demo_externals evt_plain demo_config [] []
          (CompileMap demo_externals [(''status'', [''500'', ''502''])]) [])
   \<and> \<not> snd (shouldIncludeEvent demo_externals evt200 demo_config [] []
          (CompileMap demo_externals [(''status'', [''500'', ''502''])]) [])
   \<and> snd (shouldIncludeEvent demo_externals evt_plain demo_config [] [] []
          (CompileMap demo_externals [(''status'', [''500''])]))
   \<and> \<not> snd (shouldIncludeEvent demo_externals evt500 demo_config [] [] []
          (CompileMap demo_externals [(''status'', [''500''])]))
   \<and> snd (shouldIncludeEvent demo_externals evt_plain demo_config
          (CompileKeys demo_externals [''error'']) [] [] [])
   \<and> \<not> snd (shouldIncludeEvent demo_externals evt_plain demo_config
          [] (CompileKeys demo_externals [''error'']) [] [])"
  by (simp add: demo_externals_def demo_config_def ascii_lower_def CompileMap_def CompileKeys_def
        shouldIncludeEvent_def evt502_def evt_plain_def evt200_def evt500_def)

text \<open>
  Claim C2 says that an event is included exactly when all required fragments match,
  no forbidden fragment matches, every required field exists with a matching value,
  and no forbidden-field constraint rejects it, where an absent field does not reject
  and a present field with a matching pattern does. The loop over the forbidden
  fields leaves at the first absent field (\<open>break\<close>), so the constraints after it are
  not looked at (lemma \<open>shouldIncludeEvent_include\<close>; with at most one forbidden
  field the claim holds, lemma \<open>shouldIncludeEvent_one_forbidden_field\<close>, and so do
  the claim's own examples, lemma \<open>shouldIncludeEvent_examples\<close>). Here the
  forbidden fields are \<open>region\<close> with pattern \<open>eu\<close>, visited first, and \<open>status\<close>
  with pattern \<open>500\<close>; the event has no \<open>region\<close> and has \<open>status=500\<close>, the
  pattern matches the value, and the event is included.
\<close>

theorem shouldIncludeEvent_absent_field_hides_later:
  "snd (shouldIncludeEvent demo_externals evt500 demo_config [] [] []
          (CompileMap demo_externals [(''region'', [''eu'']), (''status'', [''500''])]))
   \<and> fst (shouldIncludeEvent demo_externals evt500 demo_config [] [] []
          (CompileMap demo_externals [(''region'', [''eu'']), (''status'', [''500''])])) ''status''
       = Some ''500''
   \<and> fst (shouldIncludeEvent demo_externals evt500 demo_config [] [] []
          (CompileMap demo_externals [(''region'', [''eu'']), (''status'', [''500''])])) ''region''
       = None
   \<and> MatchString demo_externals (Compile demo_externals ''500'') ''500''"
  by (simp add: demo_externals_def demo_config_def ascii_lower_def CompileMap_def CompileKeys_def
        shouldIncludeEvent_def evt500_def)

lemma FilterStream_fragment_status: "pages (FilterStream env_fts db12 [] [] [''status''] None None) =
       [[\<lparr>Raw = ''disk full status=500'', Source = ''a.log'', Offset = 0, Host = [],
          Timestamp = 10, Id' = 1\<rparr>]]"
    by (simp add: FilterStream_def env_fts_def env_all_def db12_def max_id_def FilterStream_loop.simps
      fetch_page_def result_rows_def selected_def joined_def in_bounds_def order_key_def row_event_def
      filterStreamPageSize_def demo_fts_def match_string_def is_token_char_def ascii_lower_def)

lemma FilterStream_empty_match_string: "pages (FilterStream env_fts db12 [] [] [] None None) = [[]]"
    by (simp add: FilterStream_def env_fts_def env_all_def db12_def max_id_def FilterStream_loop.simps
      fetch_page_def result_rows_def selected_def joined_def in_bounds_def order_key_def row_event_def
      filterStreamPageSize_def demo_fts_def match_string_def is_token_char_def ascii_lower_def)

lemma FilterEventsStream_without_fragment:
  "FilterEventsStream demo_externals env_fts db12 search_a demo_config = [[]]
   \<and> FilterEventsStream demo_externals env_fts db12 search_b demo_config = [[]]"
  by (simp add: FilterEventsStream_def search_a_def search_b_def FilterStream_empty_match_string)

text \<open>
  Claim C6 says that two runs of \<open>FilterEventsStream\<close> with the same \<open>Search\<close> on
  the same store give the same output, whatever the order in which the forbidden
  fields are visited. \<open>search_c\<close> and \<open>search_d\<close> are the same search: the required
  fragment \<open>status\<close> and the same map of forbidden fields, which Go's \<open>range\<close> may
  visit in either order. The store sends the event 1 for the fragment (lemma
  \<open>FilterStream_fragment_status\<close>); with the first order the event is delivered, with
  the second nothing is. (Without a fragment the query string is empty, the engine
  finds no row and both orders deliver nothing, lemma
  \<open>FilterEventsStream_without_fragment\<close>.)
\<close>

theorem FilterEventsStream_order_dependent:
  "search_d = search_c\<lparr>NotFields := rev (NotFields search_c)\<rparr>
   \<and> map_of (NotFields search_c) = map_of (NotFields search_d)
   \<and> map (map xId) (FilterEventsStream demo_externals env_fts db12 search_c demo_config) = [[1]]
   \<and> map (map xId) (FilterEventsStream demo_externals env_fts db12 search_d demo_config) = [[]]"
proof (intro conjI)
  show "search_d = search_c\<lparr>NotFields := rev (NotFields search_c)\<rparr>"
    by (simp add: search_c_def search_d_def search_a_def search_b_def)
  show "map_of (NotFields search_c) = map_of (NotFields search_d)"
    by (rule ext) (simp add: search_c_def search_d_def search_a_def search_b_def)
  show "map (map xId) (FilterEventsStream demo_externals env_fts db12 search_c demo_config) = [[1]]"
    by (simp add: FilterEventsStream_def search_c_def search_a_def FilterStream_fragment_status demo_externals_def demo_config_def
          ascii_lower_def CompileMap_def CompileKeys_def shouldIncludeEvent_def)
  show "map (map xId) (FilterEventsStream demo_externals env_fts db12 search_d demo_config) = [[]]"
    by (simp add: FilterEventsStream_def search_d_def search_b_def FilterStream_fragment_status demo_externals_def demo_config_def
          ascii_lower_def CompileMap_def CompileKeys_def shouldIncludeEvent_def)
qed

section \<open>GetByIds: the slice returned\<close>

lemma filter_key_le1:
  "distinct (map f xs) \<Longrightarrow> length (filter (\<lambda>x. f x = i) xs) \<le> Suc 0"
  by (induction xs) (auto simp: filter_empty_conv image_iff)

lemma joined_ids:
  assumes "distinct (map r_rowid raws)"
  shows "distinct (map e_id es) \<Longrightarrow>
     distinct (map (\<lambda>row. e_id (fst row))
        (concat (map (\<lambda>e. map (Pair e) (filter (\<lambda>r. r_rowid r = e_id e) raws)) es)))
   \<and> set (map (\<lambda>row. e_id (fst row))
        (concat (map (\<lambda>e. map (Pair e) (filter (\<lambda>r. r_rowid r = e_id e) raws)) es)))
       \<subseteq> set (map e_id es)"
proof (induction es)
  case Nil
  then show ?case by simp
next
  case (Cons e es)
  have "length (filter (\<lambda>r. r_rowid r = e_id e) raws) \<le> Suc 0"
    using assms by (rule filter_key_le1)
  then have d: "distinct (map (\<lambda>row. e_id (fst row)) (map (Pair e) (filter (\<lambda>r. r_rowid r = e_id e) raws)))"
    by (cases "filter (\<lambda>r. r_rowid r = e_id e) raws") (auto simp: comp_def)
  from Cons show ?case using d by (auto simp: comp_def)
qed

lemma joined_distinct:
  "distinct (map e_id (Events db)) \<Longrightarrow> distinct (map r_rowid (EventRaws db)) \<Longrightarrow>
   distinct (map (\<lambda>row. e_id (fst row)) (joined db))"
  using joined_ids [of "EventRaws db" "Events db"] by (simp add: joined_def)

lemma rows_by_ids_length:
  assumes "distinct (map e_id (Events db))" and "distinct (map r_rowid (EventRaws db))"
  shows "length (rows_by_ids db ids) \<le> length ids"
proof -
  let ?k = "\<lambda>row :: EventsRow \<times> EventRawsRow. e_id (fst row)"
  have d: "distinct (map ?k (rows_by_ids db ids))"
    unfolding rows_by_ids_def using joined_distinct [OF assms] by (rule distinct_map_filter)
  have "set (map ?k (rows_by_ids db ids)) \<subseteq> set ids"
    by (auto simp: rows_by_ids_def)
  then have "card (set (map ?k (rows_by_ids db ids))) \<le> card (set ids)"
    by (intro card_mono) auto
  also have "\<dots> \<le> length ids" by (rule card_length)
  finally show ?thesis using distinct_card [OF d] by simp
qed

lemma GetByIds_loop_ok:
  "idx + length rows \<le> length rets \<Longrightarrow> list_all (scan_ok env) rows \<Longrightarrow>
   GetByIds_loop env rows idx rets
     = Inr (take idx rets @ map row_event rows @ drop (idx + length rows) rets)"
proof (induction rows arbitrary: idx rets)
  case Nil
  then show ?case by simp
next
  case (Cons row rows)
  from Cons.prems have lt: "idx < length rets" and rest: "list_all (scan_ok env) rows"
    by simp_all
  from Cons.prems have ok: "scan_err env (e_id (fst row)) = None"
    by (simp add: scan_ok_def)
  have "Suc idx + length rows \<le> length (rets[idx := row_event row])"
    using Cons.prems by simp
  from Cons.IH [OF this rest] show ?case
    using lt ok by (simp add: take_Suc_conv_app_nth)
qed

text \<open>
  Claim C10, amended. When the identities of \<open>Events\<close> and the rowids of
  \<open>EventRaws\<close> are unique (as the schema has it), the query does not fail and the
  rows found scan, \<open>GetByIds\<close> returns without error a slice of length \<open>len(ids)\<close>:
  the rows found, from index 0 in the order the store returns them (not the order of
  \<open>ids\<close>), then zero values for the identities that are absent or repeated. This
  holds for the empty list too, for which the slice returned is empty.
\<close>

theorem GetByIds_result:
  assumes "distinct (map e_id (Events db))" and "distinct (map r_rowid (EventRaws db))"
      and "ids_query_err env = None" and "list_all (scan_ok env) (rows_by_ids db ids)"
  shows "GetByIds env db ids
           = Inr (map row_event (rows_by_ids db ids)
                  @ replicate (length ids - length (rows_by_ids db ids)) zero_event)
         \<and> length (rows_by_ids db ids) \<le> length ids"
proof -
  have le: "length (rows_by_ids db ids) \<le> length ids"
    using assms(1,2) by (rule rows_by_ids_length)
  then have "0 + length (rows_by_ids db ids) \<le> length (replicate (length ids) zero_event)"
    by simp
  from GetByIds_loop_ok [OF this assms(4)] le show ?thesis
    by (simp add: GetByIds_def assms(3))
qed

theorem GetByIds_result_witness:
  "GetByIds env_all db12 [2, 7, 1] = Inr [
     \<lparr>Raw = ''disk full status=500'', Source = ''a.log'', Offset = 0, Host = [], Timestamp = 10, Id' = 1\<rparr>,
     \<lparr>Raw = ''ok status=200'', Source = ''b.log'', Offset = 0, Host = [], Timestamp = 20, Id' = 2\<rparr>,
     zero_event]"
proof -
  have 1: "distinct (map e_id (Events db12))" and 2: "distinct (map r_rowid (EventRaws db12))"
    by (simp_all add: db12_def)
  have 3: "ids_query_err env_all = None"
    by (simp add: env_all_def)
  have 4: "list_all (scan_ok env_all) (rows_by_ids db12 [2, 7, 1])"
    by (simp add: scan_ok_def env_all_def list_all_iff)
  from GetByIds_result [OF 1 2 3 4] show ?thesis
    by (simp add: rows_by_ids_def joined_def db12_def row_event_def)
qed

text \<open>The claim as it was stated has \<open>GetByIds\<close> return an error for the empty list
  of identities, and none for any other list. The statement built for the empty list
  is \<open>... WHERE e.id IN ();\<close>, which SQLite takes; no row is found and the empty
  slice is returned without error. For a list that is not empty a failing query is
  returned as an error.\<close>

theorem GetByIds_empty_ids:
  "GetByIds_stmt [] = ''SELECT e.id, e.source, e.timestamp, r.raw FROM Events e INNER JOIN EventRaws r ON r.rowid = e.id WHERE e.id IN ();''
   \<and> GetByIds env_all db12 [] = Inr []
   \<and> GetByIds (env_all\<lparr>ids_query_err := Some ''database is closed''\<rparr>) db12 [1]
       = Inl (Error ''error executing GetByIds query: database is closed'')"
  by (simp add: GetByIds_stmt_def GetByIds_def env_all_def rows_by_ids_def)

section \<open>AddBatch: duplicates\<close>

lemma same_triple_iff: "same_triple evt row \<longleftrightarrow> row_triple row = triple evt"
  by (auto simp: same_triple_def row_triple_def triple_def)

lemma list_ex_same_triple:
  "list_ex (same_triple evt) rows \<longleftrightarrow> triple evt \<in> set (map row_triple rows)"
  by (auto simp: list_ex_iff same_triple_iff intro: rev_image_eqI)

lemma dup_iff:
  "batch_inv db events n st \<Longrightarrow>
   duplicate_at db events n \<longleftrightarrow> list_ex (same_triple (events ! n)) (Events (tx_db st))"
  by (simp add: batch_inv_def duplicate_at_def list_ex_same_triple)

lemma skipped_from_Suc:
  "skipped_from db events (Suc n) s
     = skipped_from db events n s
       + (if duplicate_at db events n \<and> Source (events ! n) = s then 1 else 0)"
  by (simp add: skipped_from_def)

lemma novel_count_Suc:
  "novel_count db events (Suc n)
     = novel_count db events n + (if duplicate_at db events n then 0 else 1)"
  by (simp add: novel_count_def)

lemma incr_keys: "fst ` set (incr m k) = insert k (fst ` set m)"
  by (induction m k rule: incr.induct) auto

lemma incr_distinct: "distinct (map fst m) \<Longrightarrow> distinct (map fst (incr m k))"
  by (induction m k rule: incr.induct) (auto simp: incr_keys)

lemma map_of_incr:
  "distinct (map fst m) \<Longrightarrow>
   map_of (incr m k) = (map_of m)(k \<mapsto> (case map_of m k of None \<Rightarrow> 1 | Some v \<Rightarrow> v + 1))"
proof (induction m k rule: incr.induct)
  case (1 k)
  show ?case by simp
next
  case (2 k' v m k)
  then show ?case
    by (auto simp: fun_eq_iff map_of_eq_None_iff image_iff split: option.splits)
qed

lemma next_rowid_greater:
  "row \<in> set (Events d) \<Longrightarrow> e_id row < next_rowid d"
proof -
  assume a: "row \<in> set (Events d)"
  then have ne: "Events d \<noteq> []" by auto
  have "e_id row \<le> Max (set (map e_id (Events d)))"
    using a by (intro Max_ge) auto
  then show ?thesis using ne by (simp add: next_rowid_def)
qed

lemma next_rowid_pos:
  "list_all (\<lambda>r. 0 < e_id r) (Events d) \<Longrightarrow> 0 < next_rowid d"
proof (cases "Events d")
  case Nil
  then show ?thesis by (simp add: next_rowid_def)
next
  case (Cons r rs)
  assume "list_all (\<lambda>r. 0 < e_id r) (Events d)"
  with Cons have "0 < e_id r" by simp
  moreover have "e_id r < next_rowid d"
    using Cons by (intro next_rowid_greater) simp
  ultimately show ?thesis by simp
qed


lemma inv_init:
  "list_all (\<lambda>r. 0 < e_id r) (Events db) \<Longrightarrow> batch_inv db events 0 (init_state db events)"
  by (simp add: batch_inv_def init_state_def skipped_from_def novel_count_def)

lemma inv_dup:
  assumes inv: "batch_inv db events n st" and n: "n < length events"
      and dup: "duplicate_at db events n"
  shows "batch_inv db events (Suc n)
           (st\<lparr>tx_numberOfDuplicates := incr (tx_numberOfDuplicates st) (Source (events ! n))\<rparr>)"
proof -
  have tk: "take (Suc n) events = take n events @ [events ! n]"
    using n by (simp add: take_Suc_conv_app_nth)
  have in_old: "triple (events ! n)
                  \<in> set (map row_triple (Events db)) \<union> set (map triple (take n events))"
    using dup by (simp add: duplicate_at_def)
  have 1: "set (map row_triple (Events (tx_db st)))
       = set (map row_triple (Events db)) \<union> set (map triple (take (Suc n) events))"
    using inv in_old unfolding batch_inv_def tk by auto
  have 5: "\<forall>j<length events. Suc n \<le> j \<longrightarrow> tx_ret st ! j = 0"
    using inv by (simp add: batch_inv_def)
  have 6: "\<forall>j<Suc n. duplicate_at db events j \<longrightarrow> tx_ret st ! j = 0"
    using inv n by (auto simp: batch_inv_def less_Suc_eq)
  have 7: "\<forall>j<Suc n. \<not> duplicate_at db events j \<longrightarrow>
         0 < tx_ret st ! j \<and> tx_ret st ! j \<notin> set (map e_id (Events db))
       \<and> stored_row (tx_ret st ! j) (events ! j) \<in> set (Events (tx_db st))
       \<and> stored_raw (tx_ret st ! j) (events ! j) \<in> set (EventRaws (tx_db st))"
    using inv dup by (auto simp: batch_inv_def less_Suc_eq)
  have 8: "length (Events (tx_db st)) = length (Events db) + novel_count db events (Suc n)"
    using inv dup by (simp add: batch_inv_def novel_count_Suc)
  have d: "distinct (map fst (tx_numberOfDuplicates st))"
    using inv by (simp add: batch_inv_def)
  have m: "\<forall>s. map_of (tx_numberOfDuplicates st) s
            = (if skipped_from db events n s = 0 then None
               else Some (int (skipped_from db events n s)))"
    using inv by (simp add: batch_inv_def)
  have 10: "\<forall>s. map_of (incr (tx_numberOfDuplicates st) (Source (events ! n))) s
            = (if skipped_from db events (Suc n) s = 0 then None
               else Some (int (skipped_from db events (Suc n) s)))"
    using m dup by (simp add: map_of_incr [OF d] skipped_from_Suc)
  show ?thesis
    unfolding batch_inv_def
    using 1 5 6 7 8 10 incr_distinct [OF d] inv
    by (simp add: batch_inv_def)
qed

lemma inv_new:
  assumes inv: "batch_inv db events n st" and n: "n < length events"
      and new: "\<not> duplicate_at db events n"
  shows "batch_inv db events (Suc n)
           (st\<lparr>tx_db := (tx_db st)\<lparr>
                   Events := Events (tx_db st) @ [stored_row (next_rowid (tx_db st)) (events ! n)],
                   EventRaws := EventRaws (tx_db st) @ [stored_raw (next_rowid (tx_db st)) (events ! n)]\<rparr>,
                tx_ret := (tx_ret st)[n := next_rowid (tx_db st)]\<rparr>)"
proof -
  let ?id = "next_rowid (tx_db st)"
  have tk: "take (Suc n) events = take n events @ [events ! n]"
    using n by (simp add: take_Suc_conv_app_nth)
  have len: "length (tx_ret st) = length events"
    using inv by (simp add: batch_inv_def)
  have pos: "list_all (\<lambda>r. 0 < e_id r) (Events (tx_db st))"
    using inv by (simp add: batch_inv_def)
  have idpos: "0 < ?id" using pos by (rule next_rowid_pos)
  have sub: "set (Events db) \<subseteq> set (Events (tx_db st))"
    using inv by (simp add: batch_inv_def)
  have fresh: "?id \<notin> set (map e_id (Events db))"
  proof
    assume "?id \<in> set (map e_id (Events db))"
    then obtain row where "row \<in> set (Events db)" and "e_id row = ?id" by auto
    with sub next_rowid_greater [of row "tx_db st"] show False by auto
  qed
  have 1: "set (map row_triple (Events (tx_db st) @ [stored_row ?id (events ! n)]))
       = set (map row_triple (Events db)) \<union> set (map triple (take (Suc n) events))"
    using inv unfolding batch_inv_def tk
    by (auto simp: row_triple_def stored_row_def triple_def)
  have 3: "list_all (\<lambda>r. 0 < e_id r) (Events (tx_db st) @ [stored_row ?id (events ! n)])"
    using pos idpos by (simp add: stored_row_def)
  have 5: "\<forall>j<length events. Suc n \<le> j \<longrightarrow> (tx_ret st)[n := ?id] ! j = 0"
    using inv by (simp add: batch_inv_def)
  have 6: "\<forall>j<Suc n. duplicate_at db events j \<longrightarrow> (tx_ret st)[n := ?id] ! j = 0"
    using inv new by (auto simp: batch_inv_def less_Suc_eq)
  have 7: "\<forall>j<Suc n. \<not> duplicate_at db events j \<longrightarrow>
         0 < (tx_ret st)[n := ?id] ! j \<and> (tx_ret st)[n := ?id] ! j \<notin> set (map e_id (Events db))
       \<and> stored_row ((tx_ret st)[n := ?id] ! j) (events ! j)
           \<in> set (Events (tx_db st) @ [stored_row ?id (events ! n)])
       \<and> stored_raw ((tx_ret st)[n := ?id] ! j) (events ! j)
           \<in> set (EventRaws (tx_db st) @ [stored_raw ?id (events ! n)])"
  proof (intro allI impI)
    fix j assume j: "j < Suc n" and nd: "\<not> duplicate_at db events j"
    show "0 < (tx_ret st)[n := ?id] ! j \<and> (tx_ret st)[n := ?id] ! j \<notin> set (map e_id (Events db))
       \<and> stored_row ((tx_ret st)[n := ?id] ! j) (events ! j)
           \<in> set (Events (tx_db st) @ [stored_row ?id (events ! n)])
       \<and> stored_raw ((tx_ret st)[n := ?id] ! j) (events ! j)
           \<in> set (EventRaws (tx_db st) @ [stored_raw ?id (events ! n)])"
    proof (cases "j = n")
      case True
      then show ?thesis using idpos fresh len n by simp
    next
      case False
      with j have "j < n" by simp
      with inv nd False show ?thesis by (simp add: batch_inv_def)
    qed
  qed
  have 8: "length (Events (tx_db st) @ [stored_row ?id (events ! n)])
             = length (Events db) + novel_count db events (Suc n)"
    using inv new by (simp add: batch_inv_def novel_count_Suc)
  have 10: "\<forall>s. map_of (tx_numberOfDuplicates st) s
            = (if skipped_from db events (Suc n) s = 0 then None
               else Some (int (skipped_from db events (Suc n) s)))"
    using inv new by (simp add: batch_inv_def skipped_from_Suc)
  show ?thesis
    unfolding batch_inv_def
    using 1 3 5 6 7 8 10 sub len inv
    by (auto simp: batch_inv_def)
qed


lemma loop_inv:
  "batch_inv db events n st \<Longrightarrow> n \<le> length events \<Longrightarrow>
   \<exists>st'. AddBatch_loop no_faults n (drop n events) st = Inr st'
        \<and> batch_inv db events (length events) st'"
proof (induction "length events - n" arbitrary: n st)
  case 0
  then show ?case by simp
next
  case (Suc d)
  then have n: "n < length events" by simp
  have dr: "drop n events = events ! n # drop (Suc n) events"
    using n by (simp add: Cons_nth_drop_Suc)
  have d: "d = length events - Suc n" using Suc.hyps(2) by simp
  have le: "Suc n \<le> length events" using n by simp
  show ?case
  proof (cases "duplicate_at db events n")
    case True
    then have ex: "list_ex (same_triple (events ! n)) (Events (tx_db st))"
      using dup_iff [OF Suc.prems(1)] by simp
    have step: "AddBatch_loop no_faults n (drop n events) st
          = AddBatch_loop no_faults (Suc n) (drop (Suc n) events)
              (st\<lparr>tx_numberOfDuplicates := incr (tx_numberOfDuplicates st) (Source (events ! n))\<rparr>)"
      unfolding dr using ex by (simp add: exec_insert_event_def no_faults_def)
    from Suc.hyps(1) [OF d inv_dup [OF Suc.prems(1) n True] le] show ?thesis
      unfolding step .
  next
    case False
    then have nex: "\<not> list_ex (same_triple (events ! n)) (Events (tx_db st))"
      using dup_iff [OF Suc.prems(1)] by simp
    have step: "AddBatch_loop no_faults n (drop n events) st
          = AddBatch_loop no_faults (Suc n) (drop (Suc n) events)
           (st\<lparr>tx_db := (tx_db st)\<lparr>
                   Events := Events (tx_db st) @ [stored_row (next_rowid (tx_db st)) (events ! n)],
                   EventRaws := EventRaws (tx_db st) @ [stored_raw (next_rowid (tx_db st)) (events ! n)]\<rparr>,
                tx_ret := (tx_ret st)[n := next_rowid (tx_db st)]\<rparr>)"
      unfolding dr using nex
      by (simp add: exec_insert_event_def exec_insert_raw_def no_faults_def stored_row_def
            stored_raw_def)
    from Suc.hyps(1) [OF d inv_new [OF Suc.prems(1) n False] le] show ?thesis
      unfolding step .
  qed
qed

lemma filter_by_key:
  "distinct (map fst m) \<Longrightarrow>
   filter (\<lambda>kv. fst kv = s) m = (case map_of m s of None \<Rightarrow> [] | Some v \<Rightarrow> [(s, v)])"
proof (induction m)
  case Nil
  show ?case by simp
next
  case (Cons kv m)
  obtain k v where kv: "kv = (k, v)" by (cases kv)
  show ?case
  proof (cases "k = s")
    case True
    with Cons.prems have "s \<notin> fst ` set m" by (simp add: kv)
    then have "filter (\<lambda>kv. fst kv = s) m = []"
      by (auto simp: filter_empty_conv)
    with True show ?thesis by (simp add: kv)
  next
    case False
    with Cons show ?thesis by (simp add: kv)
  qed
qed

lemma skips_of_logs:
  "filter (skips_of s) (map (\<lambda>(k, v). LogSkipped v k) m)
     = map (\<lambda>(k, v). LogSkipped v k) (filter (\<lambda>kv. fst kv = s) m)"
  by (induction m) auto

text \<open>
  Claim C5. When no database call fails for another reason, a batch with duplicates
  is committed as a whole and \<open>AddBatch\<close> returns no error: the slice returned has
  the length of the batch; at the position of a duplicate it holds 0; at the position
  of any other event it holds a positive identity that was not in the store, and the
  store then has the row and the full-text row of that event under this identity; the
  number of rows of \<open>Events\<close> grows by the number of events that are not duplicates,
  so a duplicate leaves it unchanged; and for every source the log holds one line for
  its skipped events, with their number, when it has any and none otherwise. (The
  identities in the store are positive, as those SQLite assigns are.)
\<close>

theorem AddBatch_duplicates:
  assumes "list_all (\<lambda>r. 0 < e_id r) (Events db)"
  shows "\<exists>ids. result (AddBatch no_faults db events) = Inr ids
     \<and> tx (AddBatch no_faults db events) = Committed
     \<and> length ids = length events
     \<and> (\<forall>i<length events.
          if duplicate_at db events i then ids ! i = 0
          else 0 < ids ! i \<and> ids ! i \<notin> set (map e_id (Events db))
             \<and> stored_row (ids ! i) (events ! i) \<in> set (Events (store (AddBatch no_faults db events)))
             \<and> stored_raw (ids ! i) (events ! i) \<in> set (EventRaws (store (AddBatch no_faults db events))))
     \<and> length (Events (store (AddBatch no_faults db events)))
         = length (Events db) + novel_count db events (length events)
     \<and> (\<forall>s. filter (skips_of s) (logs (AddBatch no_faults db events))
           = (if skipped_from db events (length events) s = 0 then []
              else [LogSkipped (int (skipped_from db events (length events) s)) s]))"
proof -
  from loop_inv [OF inv_init [OF assms], of events]
  obtain st' where run: "AddBatch_loop no_faults 0 events (init_state db events) = Inr st'"
    and inv: "batch_inv db events (length events) st'"
    by auto
  have r: "AddBatch no_faults db events
             = \<lparr>result = Inr (tx_ret st'), store = tx_db st',
                logs = map (\<lambda>(k, v). LogSkipped v k) (tx_numberOfDuplicates st')
                         @ [LogAdded (length events)],
                tx = Committed\<rparr>"
  proof -
    have "begin_err no_faults = None" and "commit_err no_faults = None"
      by (simp_all add: no_faults_def)
    then show ?thesis by (simp add: AddBatch_def run)
  qed
  have d: "distinct (map fst (tx_numberOfDuplicates st'))"
    using inv by (simp add: batch_inv_def)
  have lg: "\<forall>s. filter (skips_of s) (logs (AddBatch no_faults db events))
           = (if skipped_from db events (length events) s = 0 then []
              else [LogSkipped (int (skipped_from db events (length events) s)) s])"
  proof
    fix s
    have m: "map_of (tx_numberOfDuplicates st') s
            = (if skipped_from db events (length events) s = 0 then None
               else Some (int (skipped_from db events (length events) s)))"
      using inv by (simp add: batch_inv_def)
    have "filter (skips_of s) (logs (AddBatch no_faults db events))
            = map (\<lambda>(k, v). LogSkipped v k)
                (case map_of (tx_numberOfDuplicates st') s of None \<Rightarrow> [] | Some v \<Rightarrow> [(s, v)])"
      by (simp add: r skips_of_logs filter_by_key [OF d])
    then show "filter (skips_of s) (logs (AddBatch no_faults db events))
           = (if skipped_from db events (length events) s = 0 then []
              else [LogSkipped (int (skipped_from db events (length events) s)) s])"
      by (simp add: m)
  qed
  have ids: "\<forall>i<length events.
          if duplicate_at db events i then tx_ret st' ! i = 0
          else 0 < tx_ret st' ! i \<and> tx_ret st' ! i \<notin> set (map e_id (Events db))
             \<and> stored_row (tx_ret st' ! i) (events ! i) \<in> set (Events (tx_db st'))
             \<and> stored_raw (tx_ret st' ! i) (events ! i) \<in> set (EventRaws (tx_db st'))"
    using inv by (simp add: batch_inv_def)
  have "result (AddBatch no_faults db events) = Inr (tx_ret st')
     \<and> tx (AddBatch no_faults db events) = Committed
     \<and> length (tx_ret st') = length events
     \<and> (\<forall>i<length events.
          if duplicate_at db events i then tx_ret st' ! i = 0
          else 0 < tx_ret st' ! i \<and> tx_ret st' ! i \<notin> set (map e_id (Events db))
             \<and> stored_row (tx_ret st' ! i) (events ! i) \<in> set (Events (store (AddBatch no_faults db events)))
             \<and> stored_raw (tx_ret st' ! i) (events ! i) \<in> set (EventRaws (store (AddBatch no_faults db events))))
     \<and> length (Events (store (AddBatch no_faults db events)))
         = length (Events db) + novel_count db events (length events)
     \<and> (\<forall>s. filter (skips_of s) (logs (AddBatch no_faults db events))
           = (if skipped_from db events (length events) s = 0 then []
              else [LogSkipped (int (skipped_from db events (length events) s)) s]))"
    using inv ids lg by (simp add: r batch_inv_def)
  then show ?thesis by blast
qed

lemma AddBatch_batch3:
  "AddBatch no_faults db12 batch3 =
     \<lparr>result = Inr [0, 3, 0],
      store = db12\<lparr>Events := Events db12 @ [stored_row 3 ev3],
                   EventRaws := EventRaws db12 @ [stored_raw 3 ev3]\<rparr>,
      logs = [LogSkipped 1 ''a.log'', LogSkipped 1 ''c.log'', LogAdded 3],
      tx = Committed\<rparr>"
  by (simp add: AddBatch_def no_faults_def batch3_def ev1_def ev3_def db12_def init_state_def
      exec_insert_event_def exec_insert_raw_def next_rowid_def same_triple_def
      expectedConstraintViolationForDuplicates_def stored_row_def stored_raw_def)

theorem AddBatch_duplicates_witness:
  "list_all (\<lambda>r. 0 < e_id r) (Events db12)
   \<and> duplicate_at db12 batch3 0 \<and> \<not> duplicate_at db12 batch3 1 \<and> duplicate_at db12 batch3 2
   \<and> (\<exists>ids. result (AddBatch no_faults db12 batch3) = Inr ids \<and> length ids = 3
         \<and> ids ! 0 = 0 \<and> 0 < ids ! 1 \<and> ids ! 2 = 0
         \<and> stored_row (ids ! 1) ev3 \<in> set (Events (store (AddBatch no_faults db12 batch3))))
   \<and> tx (AddBatch no_faults db12 batch3) = Committed
   \<and> length (Events (store (AddBatch no_faults db12 batch3))) = 3
   \<and> filter (skips_of ''a.log'') (logs (AddBatch no_faults db12 batch3)) = [LogSkipped 1 ''a.log'']
   \<and> filter (skips_of ''c.log'') (logs (AddBatch no_faults db12 batch3)) = [LogSkipped 1 ''c.log'']
   \<and> filter (skips_of ''b.log'') (logs (AddBatch no_faults db12 batch3)) = []"
proof -
  have h: "list_all (\<lambda>r. 0 < e_id r) (Events db12)"
    by (simp add: db12_def)
  have len: "length batch3 = 3" by (simp add: batch3_def)
  have d0: "duplicate_at db12 batch3 0" and d1: "\<not> duplicate_at db12 batch3 1"
    and d2: "duplicate_at db12 batch3 2"
    by (simp_all add: duplicate_at_def batch3_def db12_def ev1_def ev3_def triple_def row_triple_def)
  have up: "[0..<3] = [0, 1, 2]" by (simp add: upt_rec)
  have nc: "novel_count db12 batch3 3 = 1"
    by (simp add: novel_count_def up d0 d1 [unfolded One_nat_def] d2)
  have sa: "skipped_from db12 batch3 3 ''a.log'' = 1" and sc: "skipped_from db12 batch3 3 ''c.log'' = 1"
    and sb: "skipped_from db12 batch3 3 ''b.log'' = 0"
    by (simp_all add: skipped_from_def up d0 d1 [unfolded One_nat_def] d2)
       (simp_all add: batch3_def ev1_def ev3_def)
  from AddBatch_duplicates [OF h, of batch3] obtain ids where
    r: "result (AddBatch no_faults db12 batch3) = Inr ids"
    and t: "tx (AddBatch no_faults db12 batch3) = Committed"
    and l: "length ids = length batch3"
    and a: "\<forall>i<length batch3.
          if duplicate_at db12 batch3 i then ids ! i = 0
          else 0 < ids ! i \<and> ids ! i \<notin> set (map e_id (Events db12))
             \<and> stored_row (ids ! i) (batch3 ! i) \<in> set (Events (store (AddBatch no_faults db12 batch3)))
             \<and> stored_raw (ids ! i) (batch3 ! i) \<in> set (EventRaws (store (AddBatch no_faults db12 batch3)))"
    and c: "length (Events (store (AddBatch no_faults db12 batch3)))
         = length (Events db12) + novel_count db12 batch3 (length batch3)"
    and g: "\<forall>s. filter (skips_of s) (logs (AddBatch no_faults db12 batch3))
           = (if skipped_from db12 batch3 (length batch3) s = 0 then []
              else [LogSkipped (int (skipped_from db12 batch3 (length batch3) s)) s])"
    by blast
  from a have a0: "ids ! 0 = 0" using d0 len by force
  from a have a2: "ids ! 2 = 0" using d2 len by force
  from a have a1: "0 < ids ! 1 \<and> stored_row (ids ! 1) ev3
                      \<in> set (Events (store (AddBatch no_faults db12 batch3)))"
    using d1 len by (force simp: batch3_def)
  have c': "length (Events (store (AddBatch no_faults db12 batch3))) = 3"
  proof -
    have "length (Events db12) = 2" by (simp add: db12_def)
    with c show ?thesis by (simp add: len nc)
  qed
  have ga: "filter (skips_of ''a.log'') (logs (AddBatch no_faults db12 batch3)) = [LogSkipped 1 ''a.log'']"
    using g by (simp add: len sa)
  have gc: "filter (skips_of ''c.log'') (logs (AddBatch no_faults db12 batch3)) = [LogSkipped 1 ''c.log'']"
    using g by (simp add: len sc)
  have gb: "filter (skips_of ''b.log'') (logs (AddBatch no_faults db12 batch3)) = []"
    using g by (simp add: len sb)
  from r l a0 a1 a2 len have ex: "\<exists>ids. result (AddBatch no_faults db12 batch3) = Inr ids \<and> length ids = 3
         \<and> ids ! 0 = 0 \<and> 0 < ids ! 1 \<and> ids ! 2 = 0
         \<and> stored_row (ids ! 1) ev3 \<in> set (Events (store (AddBatch no_faults db12 batch3)))"
    by auto
  from h d0 d1 d2 ex t c' ga gc gb show ?thesis by blast
qed

end
